theory Spec2Isabelle
  imports Main "HOL-Library.Word" "HOL-Library.AList"
begin

section \<open>The filter manager of bloomd (src/bloomd/filter_manager.c)\<close>

text \<open>
  The manager is heap-allocated C: versions and filter wrappers are structs reached
  through pointers, and one wrapper is shared by the index of every version that was
  copied from the one it was inserted into. The model therefore keeps two explicit
  stores (address to struct) and passes the manager state through every operation.
  A dereference of a pointer that is NULL or not allocated is a \<open>fault\<close>; a loop over
  the heap that does not terminate has no result (\<open>None\<close>).

  What the environment decides is a parameter of the function it reaches: the address a
  \<open>calloc\<close> returns (the source never tests it against NULL, and neither does the model),
  whether \<open>art_copy\<close> succeeds, the content of the data directory, the calling thread.
  The version counter is the 64-bit word it is in the source; the \<open>int\<close> return codes
  and the loop counter of the key batches, which stay far from the limits of \<open>int\<close>, are
  integers. \<open>destroy_filter_manager\<close>, \<open>filtmgr_cleanup_list\<close> and the sleep and stop
  flag of the vacuum thread take no part in the properties below and are not modelled.
\<close>

subsection \<open>Data model (lines 13--93)\<close>

type_synonym vsn_ptr = nat
type_synonym wrapper_ptr = nat
type_synonym config_ptr = nat
type_synonym thread_id = nat

datatype fault = Null_dereference | Invalid_pointer | Out_of_bounds

text \<open>
  \<open>bloom_filter_wrapper\<close> (lines 18--26). The three \<open>volatile int\<close> flags are only
  ever assigned 0 or 1 and tested against 0, so they are booleans. The wrapper owns
  its \<open>bloom_filter\<close>, whose type \<open>'f\<close> belongs to filter.h; the rwlock is left out
  (operations are modelled one at a time).
\<close>

record 'f bloom_filter_wrapper =
  is_active :: bool
  is_hot :: bool
  should_delete :: bool
  filter_obj :: 'f
  custom :: "config_ptr option"

text \<open>
  Modelled from the spec: the name index \<open>art_tree\<close> (art.h, art.c are not part of the
  source given). Section 3 of the specification requires point search, insert, delete
  (removing the association only), full and prefix iteration with a key and value
  callback, and a structural copy whose entries alias the same wrappers. The index is
  an association list from filter name to wrapper pointer; iteration visits it in
  list order (the specification leaves the order open).
\<close>

type_synonym art_tree = "(string \<times> wrapper_ptr) list"

definition art_search :: "art_tree \<Rightarrow> string \<Rightarrow> wrapper_ptr option" where
  "art_search t k = map_of t k"

definition art_insert :: "art_tree \<Rightarrow> string \<Rightarrow> wrapper_ptr \<Rightarrow> art_tree" where
  "art_insert t k v = AList.update k v t"

definition art_delete :: "art_tree \<Rightarrow> string \<Rightarrow> art_tree" where
  "art_delete t k = AList.delete k t"

text \<open>\<open>art_copy\<close> returns non-zero when it cannot allocate; \<open>ok\<close> is that outcome.\<close>

definition art_copy :: "bool \<Rightarrow> art_tree \<Rightarrow> art_tree option" where
  "art_copy ok src = (if ok then Some src else None)"

text \<open>The callback's return value stops the iteration when it is not 0.\<close>

fun art_iter :: "art_tree \<Rightarrow> ('d \<Rightarrow> string \<Rightarrow> wrapper_ptr \<Rightarrow> fault + int \<times> 'd) \<Rightarrow> 'd \<Rightarrow> fault + int \<times> 'd" where
  "art_iter [] cb d = Inr (0, d)"
| "art_iter ((k, v) # t) cb d =
     (case cb d k v of
        Inl e \<Rightarrow> Inl e
      | Inr (r, d') \<Rightarrow> if r \<noteq> 0 then Inr (r, d') else art_iter t cb d')"

definition art_iter_prefix :: "art_tree \<Rightarrow> string \<Rightarrow> ('d \<Rightarrow> string \<Rightarrow> wrapper_ptr \<Rightarrow> fault + int \<times> 'd) \<Rightarrow> 'd \<Rightarrow> fault + int \<times> 'd" where
  "art_iter_prefix t pfx cb d = art_iter (filter (\<lambda>(k, v). take (length pfx) k = pfx) t) cb d"

text \<open>\<open>filtmgr_vsn\<close> (lines 36--46); \<open>vsn\<close> is an \<open>unsigned long long\<close>.\<close>

record filtmgr_vsn =
  vsn :: "64 word"
  filter_map :: art_tree
  deleted :: "wrapper_ptr option"
  prev :: "vsn_ptr option"

text \<open>\<open>filtmgr_client\<close> (lines 56--60); the \<open>next\<close> links are the list.\<close>

record filtmgr_client =
  cl_id :: thread_id
  cl_vsn :: "64 word"

text \<open>
  The last call \<open>delete_filter\<close> makes on a filter before it destroys it: \<open>bloomf_delete\<close>
  removes the files, \<open>bloomf_close\<close> only closes. The state records these calls, the
  most recent first.
\<close>

datatype 'f reclaim_call = Bloomf_delete 'f | Bloomf_close 'f

text \<open>
  \<open>struct bloom_filtmgr\<close> (lines 62--81) together with the heap it points into:
  \<open>versions\<close> holds the allocated \<open>filtmgr_vsn\<close> structs, \<open>wrappers\<close> the allocated
  \<open>bloom_filter_wrapper\<close> structs. The locks, \<open>should_run\<close> and the thread handle are
  left out.
\<close>

record 'f bloom_filtmgr =
  config :: config_ptr
  latest :: vsn_ptr
  clients :: "filtmgr_client list"
  versions :: "vsn_ptr \<rightharpoonup> filtmgr_vsn"
  wrappers :: "wrapper_ptr \<rightharpoonup> 'f bloom_filter_wrapper"
  reclaimed :: "'f reclaim_call list"

text \<open>
  The functions and fields of filter.h that the manager uses, taken as a parameter:
  \<open>init_bloom_filter\<close> gives \<open>None\<close> for a non-zero return; \<open>bloomf_contains\<close> and
  \<open>bloomf_add\<close> return their \<open>int\<close> and the filter as they leave it.
\<close>

record 'f filter_api =
  init_bloom_filter :: "config_ptr \<Rightarrow> string \<Rightarrow> bool \<Rightarrow> 'f option"
  bloomf_contains :: "'f \<Rightarrow> string \<Rightarrow> int \<times> 'f"
  bloomf_add :: "'f \<Rightarrow> string \<Rightarrow> int \<times> 'f"
  bloomf_flush :: "'f \<Rightarrow> 'f"
  bloomf_close :: "'f \<Rightarrow> 'f"
  bloomf_is_proxied :: "'f \<Rightarrow> bool"
  filter_name :: "'f \<Rightarrow> string"
  in_memory :: "'f \<Rightarrow> bool"

definition WARN_THRESHOLD :: "64 word" where
  "WARN_THRESHOLD = 32"

definition FOLDER_PREFIX :: string where
  "FOLDER_PREFIX = ''bloomd.''"

definition FOLDER_PREFIX_LEN :: nat where
  "FOLDER_PREFIX_LEN = length FOLDER_PREFIX"

subsection \<open>Static helpers (lines 583--648, 782--815)\<close>

text \<open>\<open>take_filter\<close> (lines 586--589): the wrapper if it is found and active.\<close>

definition take_filter :: "'f bloom_filtmgr \<Rightarrow> vsn_ptr \<Rightarrow> string \<Rightarrow> fault + wrapper_ptr option" where
  "take_filter s v name =
     (case versions s v of
        None \<Rightarrow> Inl Invalid_pointer
      | Some V \<Rightarrow>
          (case art_search (filter_map V) name of
             None \<Rightarrow> Inr None
           | Some filt \<Rightarrow>
               (case wrappers s filt of
                  None \<Rightarrow> Inl Invalid_pointer
                | Some W \<Rightarrow> Inr (if is_active W then Some filt else None))))"

text \<open>\<open>delete_filter\<close> (lines 596--614): delete or close, then free the wrapper.\<close>

definition delete_filter :: "wrapper_ptr \<Rightarrow> 'f bloom_filtmgr \<Rightarrow> fault + 'f bloom_filtmgr" where
  "delete_filter filt s =
     (case wrappers s filt of
        None \<Rightarrow> Inl Invalid_pointer
      | Some W \<Rightarrow>
          Inr (s\<lparr>reclaimed :=
                   (if should_delete W then Bloomf_delete (filter_obj W)
                    else Bloomf_close (filter_obj W)) # reclaimed s,
                 wrappers := (wrappers s)(filt := None)\<rparr>))"

text \<open>
  \<open>add_filter\<close> (lines 625--648). \<open>filt\<close> is the address \<open>calloc\<close> returns; \<open>vp\<close> is the
  version pointer the caller passes, which \<open>filtmgr_create_filter\<close> does not check
  against NULL.
\<close>

definition add_filter :: "'f filter_api \<Rightarrow> wrapper_ptr \<Rightarrow> 'f bloom_filtmgr \<Rightarrow> vsn_ptr option \<Rightarrow> string \<Rightarrow> config_ptr \<Rightarrow> bool \<Rightarrow> fault + int \<times> 'f bloom_filtmgr" where
  "add_filter api filt s vp name cfg hot =
     (case init_bloom_filter api cfg name hot of
        None \<Rightarrow> Inr (- 1, s)
      | Some f \<Rightarrow>
          (case vp of
             None \<Rightarrow> Inl Null_dereference
           | Some v \<Rightarrow>
               (case versions s v of
                  None \<Rightarrow> Inl Invalid_pointer
                | Some V \<Rightarrow>
                    Inr (0, s\<lparr>wrappers := (wrappers s)(filt \<mapsto>
                                  \<lparr>is_active = True, is_hot = hot, should_delete = False,
                                   filter_obj = f,
                                   custom = (if config s \<noteq> cfg then Some cfg else None)\<rparr>),
                               versions := (versions s)(v \<mapsto>
                                  V\<lparr>filter_map := art_insert (filter_map V) name filt\<rparr>)\<rparr>))))"

text \<open>
  \<open>create_new_version\<close> (lines 787--809): \<open>p\<close> is the address \<open>calloc\<close> returns,
  \<open>copy_ok\<close> whether \<open>art_copy\<close> succeeds. On failure the struct is freed again and
  NULL is returned.
\<close>

definition create_new_version :: "vsn_ptr \<Rightarrow> bool \<Rightarrow> 'f bloom_filtmgr \<Rightarrow> fault + vsn_ptr option \<times> 'f bloom_filtmgr" where
  "create_new_version p copy_ok s =
     (case versions s (latest s) of
        None \<Rightarrow> Inl Invalid_pointer
      | Some C \<Rightarrow>
          (case art_copy copy_ok (filter_map C) of
             None \<Rightarrow> Inr (None, s)
           | Some m \<Rightarrow>
               Inr (Some p, s\<lparr>versions := (versions s)(p \<mapsto>
                      \<lparr>vsn = vsn C + 1, filter_map = m, deleted = None,
                       prev = Some (latest s)\<rparr>)\<rparr>)))"

text \<open>\<open>destroy_version\<close> (lines 812--815) reads through its argument before freeing it.\<close>

definition destroy_version :: "vsn_ptr option \<Rightarrow> 'f bloom_filtmgr \<Rightarrow> fault + 'f bloom_filtmgr" where
  "destroy_version vp s =
     (case vp of
        None \<Rightarrow> Inl Null_dereference
      | Some v \<Rightarrow>
          (case versions s v of
             None \<Rightarrow> Inl Invalid_pointer
           | Some V \<Rightarrow> Inr (s\<lparr>versions := (versions s)(v := None)\<rparr>)))"

subsection \<open>Initialisation and the loader (lines 112--147, 730--779)\<close>

text \<open>
  \<open>filter_bloomd_folders\<close> (lines 733--750), the \<open>scandir\<close> filter, applied to the
  \<open>d_name\<close> of a directory entry. \<open>strncmp\<close> over \<open>FOLDER_PREFIX_LEN\<close> bytes compares
  the first seven characters (a shorter name ends at its NUL and differs there).
\<close>

definition filter_bloomd_folders :: "string \<Rightarrow> int" where
  "filter_bloomd_folders name =
     (let name_len = int (length name) in
      if name_len < 8 then 0
      else if take FOLDER_PREFIX_LEN name = FOLDER_PREFIX then 1
      else 0)"

text \<open>\<open>scandir\<close> with that filter and no comparison function keeps the directory order.\<close>

definition scandir :: "string list \<Rightarrow> string list" where
  "scandir entries = filter (\<lambda>d. filter_bloomd_folders d \<noteq> 0) entries"

text \<open>
  The loop of \<open>load_existing_filters\<close> (lines 768--774); \<open>calloc_w i\<close> is the address
  the \<open>calloc\<close> of \<open>add_filter\<close> returns in iteration \<open>i\<close>. A filter that fails to load
  is logged and skipped.
\<close>

function load_loop :: "'f filter_api \<Rightarrow> (nat \<Rightarrow> wrapper_ptr) \<Rightarrow> string list \<Rightarrow> nat \<Rightarrow> 'f bloom_filtmgr \<Rightarrow> fault + 'f bloom_filtmgr" where
  "load_loop api calloc_w namelist i s =
     (if i < length namelist then
        (let folder_name = namelist ! i;
             name = drop FOLDER_PREFIX_LEN folder_name
         in case add_filter api (calloc_w i) s (Some (latest s)) name (config s) False of
              Inl e \<Rightarrow> Inl e
            | Inr (res, s') \<Rightarrow> load_loop api calloc_w namelist (i + 1) s')
      else Inr s)"
  by pat_completeness auto
termination
  by (relation "measure (\<lambda>(api, calloc_w, namelist, i, s). length namelist - i)") auto

text \<open>\<open>dir\<close> is the content of the data directory, \<open>None\<close> when \<open>scandir\<close> fails.\<close>

definition load_existing_filters :: "'f filter_api \<Rightarrow> (nat \<Rightarrow> wrapper_ptr) \<Rightarrow> string list option \<Rightarrow> 'f bloom_filtmgr \<Rightarrow> fault + int \<times> 'f bloom_filtmgr" where
  "load_existing_filters api calloc_w dir s =
     (case dir of
        None \<Rightarrow> Inr (- 1, s)
      | Some entries \<Rightarrow>
          (case load_loop api calloc_w (scandir entries) 0 s of
             Inl e \<Rightarrow> Inl e
           | Inr s' \<Rightarrow> Inr (0, s')))"

text \<open>
  \<open>init_filter_manager\<close> (lines 112--147). \<open>v0\<close> is the address of the initial version,
  \<open>art_ok\<close> and \<open>thread_ok\<close> the outcomes of \<open>init_art_tree\<close> and \<open>pthread_create\<close>.
  When the thread cannot be started the manager is destroyed again, so no manager is
  returned.
\<close>

definition init_filter_manager :: "'f filter_api \<Rightarrow> bool \<Rightarrow> bool \<Rightarrow> config_ptr \<Rightarrow> vsn_ptr \<Rightarrow> (nat \<Rightarrow> wrapper_ptr) \<Rightarrow> string list option \<Rightarrow> fault + int \<times> 'f bloom_filtmgr option" where
  "init_filter_manager api art_ok thread_ok cfg v0 calloc_w dir =
     (let m = \<lparr>config = cfg, latest = v0, clients = [],
                versions = [v0 \<mapsto> \<lparr>vsn = 0, filter_map = [], deleted = None, prev = None\<rparr>],
                wrappers = Map.empty, reclaimed = []\<rparr>
      in if \<not> art_ok then Inr (- 1, None)
         else (case load_existing_filters api calloc_w dir m of
                 Inl e \<Rightarrow> Inl e
               | Inr (r, m') \<Rightarrow> if \<not> thread_ok then Inr (1, None) else Inr (0, Some m')))"

subsection \<open>Client participation (lines 194--254)\<close>

text \<open>The search loop of \<open>filtmgr_client_checkpoint\<close>: \<open>None\<close> when no record matches.\<close>

fun checkpoint_scan :: "thread_id \<Rightarrow> 64 word \<Rightarrow> filtmgr_client list \<Rightarrow> filtmgr_client list option" where
  "checkpoint_scan tid v [] = None"
| "checkpoint_scan tid v (cl # cls) =
     (if cl_id cl = tid then Some (cl\<lparr>cl_vsn := v\<rparr> # cls)
      else map_option ((#) cl) (checkpoint_scan tid v cls))"

definition filtmgr_client_checkpoint :: "thread_id \<Rightarrow> 'f bloom_filtmgr \<Rightarrow> fault + 'f bloom_filtmgr" where
  "filtmgr_client_checkpoint tid s =
     (case versions s (latest s) of
        None \<Rightarrow> Inl Invalid_pointer
      | Some L \<Rightarrow>
          (case checkpoint_scan tid (vsn L) (clients s) of
             Some cls \<Rightarrow> Inr (s\<lparr>clients := cls\<rparr>)
           | None \<Rightarrow> Inr (s\<lparr>clients := \<lparr>cl_id = tid, cl_vsn = vsn L\<rparr> # clients s\<rparr>)))"

fun leave_scan :: "thread_id \<Rightarrow> filtmgr_client list \<Rightarrow> filtmgr_client list" where
  "leave_scan tid [] = []"
| "leave_scan tid (cl # cls) = (if cl_id cl = tid then cls else cl # leave_scan tid cls)"

definition filtmgr_client_leave :: "thread_id \<Rightarrow> 'f bloom_filtmgr \<Rightarrow> 'f bloom_filtmgr" where
  "filtmgr_client_leave tid s = s\<lparr>clients := leave_scan tid (clients s)\<rparr>"

subsection \<open>Read and write paths (lines 261--340)\<close>

definition filtmgr_flush_filter :: "'f filter_api \<Rightarrow> 'f bloom_filtmgr \<Rightarrow> string \<Rightarrow> fault + int \<times> 'f bloom_filtmgr" where
  "filtmgr_flush_filter api s name =
     (case take_filter s (latest s) name of
        Inl e \<Rightarrow> Inl e
      | Inr None \<Rightarrow> Inr (- 1, s)
      | Inr (Some filt) \<Rightarrow>
          (case wrappers s filt of
             None \<Rightarrow> Inl Invalid_pointer
           | Some W \<Rightarrow>
               Inr (0, s\<lparr>wrappers := (wrappers s)(filt \<mapsto>
                             W\<lparr>filter_obj := bloomf_flush api (filter_obj W)\<rparr>)\<rparr>)))"

text \<open>
  The \<open>for\<close> loop shared by \<open>filtmgr_check_keys\<close> and \<open>filtmgr_set_keys\<close> (lines 292--297
  and 327--332); \<open>call\<close> is \<open>bloomf_contains\<close> or \<open>bloomf_add\<close>. \<open>result\<close> is the
  caller's \<open>char\<close> array, so the \<open>int\<close> is converted on the store. Reading a key or
  writing a slot beyond the end of its array is a fault.
\<close>

function keys_loop :: "('f \<Rightarrow> string \<Rightarrow> int \<times> 'f) \<Rightarrow> string list \<Rightarrow> int \<Rightarrow> int \<Rightarrow> int \<Rightarrow> 'f \<Rightarrow> 8 word list \<Rightarrow> fault + int \<times> 'f \<times> 8 word list" where
  "keys_loop call keys num_keys i res f result =
     (if i < num_keys then
        (if i < 0 \<or> int (length keys) \<le> i then Inl Out_of_bounds
         else (case call f (keys ! nat i) of
                 (res', f') \<Rightarrow>
                   if res' = - 1 then Inr (res', f', result)
                   else if int (length result) \<le> i then Inl Out_of_bounds
                   else keys_loop call keys num_keys (i + 1) res' f'
                          (result[nat i := word_of_int res'])))
      else Inr (res, f, result))"
  by pat_completeness auto
termination
  by (relation "measure (\<lambda>(call, keys, num_keys, i, res, f, result). nat (num_keys - i))") auto

definition keys_op :: "('f \<Rightarrow> string \<Rightarrow> int \<times> 'f) \<Rightarrow> 'f bloom_filtmgr \<Rightarrow> string \<Rightarrow> string list \<Rightarrow> int \<Rightarrow> 8 word list \<Rightarrow> fault + int \<times> 8 word list \<times> 'f bloom_filtmgr" where
  "keys_op call s name keys num_keys result =
     (case take_filter s (latest s) name of
        Inl e \<Rightarrow> Inl e
      | Inr None \<Rightarrow> Inr (- 1, result, s)
      | Inr (Some filt) \<Rightarrow>
          (case wrappers s filt of
             None \<Rightarrow> Inl Invalid_pointer
           | Some W \<Rightarrow>
               (case keys_loop call keys num_keys 0 0 (filter_obj W) result of
                  Inl e \<Rightarrow> Inl e
                | Inr (res, f', result') \<Rightarrow>
                    Inr (if res = - 1 then - 2 else 0, result',
                         s\<lparr>wrappers := (wrappers s)(filt \<mapsto>
                              W\<lparr>filter_obj := f', is_hot := True\<rparr>)\<rparr>))))"

definition filtmgr_check_keys :: "'f filter_api \<Rightarrow> 'f bloom_filtmgr \<Rightarrow> string \<Rightarrow> string list \<Rightarrow> int \<Rightarrow> 8 word list \<Rightarrow> fault + int \<times> 8 word list \<times> 'f bloom_filtmgr" where
  "filtmgr_check_keys api s name keys num_keys result =
     keys_op (bloomf_contains api) s name keys num_keys result"

definition filtmgr_set_keys :: "'f filter_api \<Rightarrow> 'f bloom_filtmgr \<Rightarrow> string \<Rightarrow> string list \<Rightarrow> int \<Rightarrow> 8 word list \<Rightarrow> fault + int \<times> 8 word list \<times> 'f bloom_filtmgr" where
  "filtmgr_set_keys api s name keys num_keys result =
     keys_op (bloomf_add api) s name keys num_keys result"

subsection \<open>Destructive operations (lines 349--504)\<close>

text \<open>
  The scan for a pending delete in \<open>filtmgr_create_filter\<close> (lines 364--373): the
  \<open>while\<close> loop follows \<open>prev\<close> from \<open>vp\<close> until NULL and answers whether some version's
  \<open>deleted\<close> wrapper holds a filter of that name. On a cyclic chain it does not return.
\<close>

partial_function (option) pending_delete_scan :: "'f filter_api \<Rightarrow> 'f bloom_filtmgr \<Rightarrow> vsn_ptr option \<Rightarrow> string \<Rightarrow> (fault + bool) option" where
  "pending_delete_scan api s vp name =
     (case vp of
        None \<Rightarrow> Some (Inr False)
      | Some v \<Rightarrow>
          (case versions s v of
             None \<Rightarrow> Some (Inl Invalid_pointer)
           | Some V \<Rightarrow>
               (case deleted V of
                  None \<Rightarrow> pending_delete_scan api s (prev V) name
                | Some d \<Rightarrow>
                    (case wrappers s d of
                       None \<Rightarrow> Some (Inl Invalid_pointer)
                     | Some W \<Rightarrow>
                         if filter_name api (filter_obj W) = name then Some (Inr True)
                         else pending_delete_scan api s (prev V) name))))"

declare pending_delete_scan.simps [code]

text \<open>
  Lines 376--394 of \<open>filtmgr_create_filter\<close>: build the new version, add the filter,
  install. The result of \<open>create_new_version\<close> is passed on unchecked.
\<close>

definition create_install :: "'f filter_api \<Rightarrow> vsn_ptr \<Rightarrow> wrapper_ptr \<Rightarrow> bool \<Rightarrow> 'f bloom_filtmgr \<Rightarrow> string \<Rightarrow> config_ptr option \<Rightarrow> fault + int \<times> 'f bloom_filtmgr" where
  "create_install api p filt copy_ok s name custom_config =
     (case create_new_version p copy_ok s of
        Inl e \<Rightarrow> Inl e
      | Inr (new_vsn, s1) \<Rightarrow>
          (let cfg = (case custom_config of Some c \<Rightarrow> c | None \<Rightarrow> config s1)
           in case add_filter api filt s1 new_vsn name cfg True of
                Inl e \<Rightarrow> Inl e
              | Inr (res, s2) \<Rightarrow>
                  if res \<noteq> 0 then
                    (case destroy_version new_vsn s2 of
                       Inl e \<Rightarrow> Inl e
                     | Inr s3 \<Rightarrow> Inr (- 2, s3))
                  else
                    (case new_vsn of
                       None \<Rightarrow> Inl Null_dereference
                     | Some v \<Rightarrow> Inr (res, s2\<lparr>latest := v\<rparr>))))"

text \<open>
  \<open>filtmgr_create_filter\<close> (lines 349--395). \<open>p\<close> and \<open>filt\<close> are the addresses the two
  \<open>calloc\<close> calls return, \<open>copy_ok\<close> the outcome of \<open>art_copy\<close>.
\<close>

definition filtmgr_create_filter :: "'f filter_api \<Rightarrow> vsn_ptr \<Rightarrow> wrapper_ptr \<Rightarrow> bool \<Rightarrow> 'f bloom_filtmgr \<Rightarrow> string \<Rightarrow> config_ptr option \<Rightarrow> (fault + int \<times> 'f bloom_filtmgr) option" where
  "filtmgr_create_filter api p filt copy_ok s name custom_config =
     (case versions s (latest s) of
        None \<Rightarrow> Some (Inl Invalid_pointer)
      | Some L \<Rightarrow>
          (case art_search (filter_map L) name of
             Some found \<Rightarrow> Some (Inr (- 1, s))
           | None \<Rightarrow>
               Option.bind (pending_delete_scan api s (prev L) name)
                 (\<lambda>r. case r of
                         Inl e \<Rightarrow> Some (Inl e)
                       | Inr True \<Rightarrow> Some (Inr (- 3, s))
                       | Inr False \<Rightarrow>
                           Some (create_install api p filt copy_ok s name custom_config))))"

text \<open>
  Lines 415--425 and 488--499, shared by drop and clear but for the value given to
  \<open>should_delete\<close>: mark the wrapper, build the new version without the name, park the
  wrapper on the current version, install.
\<close>

definition remove_install :: "vsn_ptr \<Rightarrow> bool \<Rightarrow> bool \<Rightarrow> 'f bloom_filtmgr \<Rightarrow> string \<Rightarrow> wrapper_ptr \<Rightarrow> fault + int \<times> 'f bloom_filtmgr" where
  "remove_install p copy_ok del s name filt =
     (case wrappers s filt of
        None \<Rightarrow> Inl Invalid_pointer
      | Some W \<Rightarrow>
          (let current = latest s;
               s1 = s\<lparr>wrappers := (wrappers s)(filt \<mapsto>
                        W\<lparr>is_active := False, should_delete := del\<rparr>)\<rparr>
           in case create_new_version p copy_ok s1 of
                Inl e \<Rightarrow> Inl e
              | Inr (None, s2) \<Rightarrow> Inl Null_dereference
              | Inr (Some new_vsn, s2) \<Rightarrow>
                  (case versions s2 new_vsn of
                     None \<Rightarrow> Inl Invalid_pointer
                   | Some N \<Rightarrow>
                       (let s3 = s2\<lparr>versions := (versions s2)(new_vsn \<mapsto>
                                     N\<lparr>filter_map := art_delete (filter_map N) name\<rparr>)\<rparr>
                        in case versions s3 current of
                             None \<Rightarrow> Inl Invalid_pointer
                           | Some C \<Rightarrow>
                               Inr (0, s3\<lparr>versions := (versions s3)(current \<mapsto>
                                             C\<lparr>deleted := Some filt\<rparr>),
                                           latest := new_vsn\<rparr>)))))"

text \<open>\<open>filtmgr_drop_filter\<close> (lines 403--430).\<close>

definition filtmgr_drop_filter :: "vsn_ptr \<Rightarrow> bool \<Rightarrow> 'f bloom_filtmgr \<Rightarrow> string \<Rightarrow> fault + int \<times> 'f bloom_filtmgr" where
  "filtmgr_drop_filter p copy_ok s name =
     (case take_filter s (latest s) name of
        Inl e \<Rightarrow> Inl e
      | Inr None \<Rightarrow> Inr (- 1, s)
      | Inr (Some filt) \<Rightarrow> remove_install p copy_ok True s name filt)"

text \<open>\<open>filtmgr_unmap_filter\<close> (lines 441--460).\<close>

definition filtmgr_unmap_filter :: "'f filter_api \<Rightarrow> 'f bloom_filtmgr \<Rightarrow> string \<Rightarrow> fault + int \<times> 'f bloom_filtmgr" where
  "filtmgr_unmap_filter api s name =
     (case take_filter s (latest s) name of
        Inl e \<Rightarrow> Inl e
      | Inr None \<Rightarrow> Inr (- 1, s)
      | Inr (Some filt) \<Rightarrow>
          (case wrappers s filt of
             None \<Rightarrow> Inl Invalid_pointer
           | Some W \<Rightarrow>
               if \<not> in_memory api (filter_obj W) then
                 Inr (0, s\<lparr>wrappers := (wrappers s)(filt \<mapsto>
                               W\<lparr>filter_obj := bloomf_close api (filter_obj W)\<rparr>)\<rparr>)
               else Inr (0, s)))"

text \<open>\<open>filtmgr_clear_filter\<close> (lines 470--504).\<close>

definition filtmgr_clear_filter :: "'f filter_api \<Rightarrow> vsn_ptr \<Rightarrow> bool \<Rightarrow> 'f bloom_filtmgr \<Rightarrow> string \<Rightarrow> fault + int \<times> 'f bloom_filtmgr" where
  "filtmgr_clear_filter api p copy_ok s name =
     (case take_filter s (latest s) name of
        Inl e \<Rightarrow> Inl e
      | Inr None \<Rightarrow> Inr (- 1, s)
      | Inr (Some filt) \<Rightarrow>
          (case wrappers s filt of
             None \<Rightarrow> Inl Invalid_pointer
           | Some W \<Rightarrow>
               if \<not> bloomf_is_proxied api (filter_obj W) then Inr (- 2, s)
               else remove_install p copy_ok False s name filt))"

subsection \<open>Listing and the callback (lines 515--565, 655--710)\<close>

text \<open>
  A \<open>bloom_filter_list_head\<close> is the list of its nodes' names, the head first; its
  \<open>size\<close> field is the length of that list.
\<close>

type_synonym bloom_filter_list_head = "string list"

text \<open>\<open>filter_map_list_cb\<close> (lines 655--675); \<open>data\<close> is the head and the state it reads.\<close>

definition filter_map_list_cb :: "bloom_filter_list_head \<times> 'f bloom_filtmgr \<Rightarrow> string \<Rightarrow> wrapper_ptr \<Rightarrow> fault + int \<times> bloom_filter_list_head \<times> 'f bloom_filtmgr" where
  "filter_map_list_cb data key val =
     (case data of (head, s) \<Rightarrow>
        (case wrappers s val of
           None \<Rightarrow> Inl Invalid_pointer
         | Some filt \<Rightarrow>
             if \<not> is_active filt then Inr (0, head, s)
             else Inr (0, key # head, s)))"

text \<open>\<open>filter_map_list_cold_cb\<close> (lines 682--710).\<close>

definition filter_map_list_cold_cb :: "'f filter_api \<Rightarrow> bloom_filter_list_head \<times> 'f bloom_filtmgr \<Rightarrow> string \<Rightarrow> wrapper_ptr \<Rightarrow> fault + int \<times> bloom_filter_list_head \<times> 'f bloom_filtmgr" where
  "filter_map_list_cold_cb api data key val =
     (case data of (head, s) \<Rightarrow>
        (case wrappers s val of
           None \<Rightarrow> Inl Invalid_pointer
         | Some filt \<Rightarrow>
             if is_hot filt then
               Inr (0, head, s\<lparr>wrappers := (wrappers s)(val \<mapsto> filt\<lparr>is_hot := False\<rparr>)\<rparr>)
             else if bloomf_is_proxied api (filter_obj filt) then Inr (0, head, s)
             else Inr (0, key # head, s)))"

text \<open>\<open>filtmgr_list_filters\<close> (lines 515--526); \<open>pfx\<close> is \<open>None\<close> for a NULL prefix.\<close>

definition filtmgr_list_filters :: "'f bloom_filtmgr \<Rightarrow> string option \<Rightarrow> fault + int \<times> bloom_filter_list_head" where
  "filtmgr_list_filters s pfx =
     (case versions s (latest s) of
        None \<Rightarrow> Inl Invalid_pointer
      | Some C \<Rightarrow>
          (case (case pfx of
                   Some p \<Rightarrow> art_iter_prefix (filter_map C) p filter_map_list_cb ([], s)
                 | None \<Rightarrow> art_iter (filter_map C) filter_map_list_cb ([], s)) of
             Inl e \<Rightarrow> Inl e
           | Inr (r, head, s') \<Rightarrow> Inr (0, head)))"

text \<open>\<open>filtmgr_list_cold_filters\<close> (lines 537--545).\<close>

definition filtmgr_list_cold_filters :: "'f filter_api \<Rightarrow> 'f bloom_filtmgr \<Rightarrow> fault + int \<times> bloom_filter_list_head \<times> 'f bloom_filtmgr" where
  "filtmgr_list_cold_filters api s =
     (case versions s (latest s) of
        None \<Rightarrow> Inl Invalid_pointer
      | Some C \<Rightarrow>
          (case art_iter (filter_map C) (filter_map_list_cold_cb api) ([], s) of
             Inl e \<Rightarrow> Inl e
           | Inr (r, head, s') \<Rightarrow> Inr (0, head, s')))"

text \<open>
  \<open>filtmgr_filter_cb\<close> (lines 556--565). The callback receives the filter, not the
  wrapper; \<open>cb\<close> is what it leaves of the filter.
\<close>

definition filtmgr_filter_cb :: "'f bloom_filtmgr \<Rightarrow> string \<Rightarrow> (string \<Rightarrow> 'f \<Rightarrow> 'f) \<Rightarrow> fault + int \<times> 'f bloom_filtmgr" where
  "filtmgr_filter_cb s name cb =
     (case take_filter s (latest s) name of
        Inl e \<Rightarrow> Inl e
      | Inr None \<Rightarrow> Inr (- 1, s)
      | Inr (Some filt) \<Rightarrow>
          (case wrappers s filt of
             None \<Rightarrow> Inl Invalid_pointer
           | Some W \<Rightarrow>
               Inr (0, s\<lparr>wrappers := (wrappers s)(filt \<mapsto>
                             W\<lparr>filter_obj := cb name (filter_obj W)\<rparr>)\<rparr>)))"

subsection \<open>Vacuum (lines 817--895)\<close>

text \<open>
  What \<open>clean_old_versions\<close> does after its recursive call has returned \<open>rec\<close>
  (lines 820--836): clear \<open>prev\<close> if the older version was destroyed, keep the version
  if it is not below \<open>min_vsn\<close>, otherwise reclaim its parked wrapper and destroy it.
\<close>

definition clean_this :: "vsn_ptr \<Rightarrow> 64 word \<Rightarrow> bool \<Rightarrow> 'f bloom_filtmgr \<Rightarrow> fault + bool \<times> 'f bloom_filtmgr" where
  "clean_this v min_vsn rec s =
     (case versions s v of
        None \<Rightarrow> Inl Invalid_pointer
      | Some V0 \<Rightarrow>
          (let V = (if rec then V0\<lparr>prev := None\<rparr> else V0);
               s1 = (if rec then s\<lparr>versions := (versions s)(v \<mapsto> V)\<rparr> else s)
           in if vsn V \<ge> min_vsn then Inr (False, s1)
              else
                (case (case deleted V of
                         None \<Rightarrow> Inr s1
                       | Some d \<Rightarrow> delete_filter d s1) of
                   Inl e \<Rightarrow> Inl e
                 | Inr s2 \<Rightarrow>
                     (case destroy_version (Some v) s2 of
                        Inl e \<Rightarrow> Inl e
                      | Inr s3 \<Rightarrow> Inr (True, s3)))))"

text \<open>
  \<open>clean_old_versions\<close> (lines 818--837) recurses along \<open>prev\<close> before it looks at its
  own version. The recursion is over the heap, so it is a partial function: no result
  on a chain that never reaches NULL.
\<close>

partial_function (option) clean_old_versions :: "vsn_ptr \<Rightarrow> 64 word \<Rightarrow> 'f bloom_filtmgr \<Rightarrow> (fault + bool \<times> 'f bloom_filtmgr) option" where
  "clean_old_versions v min_vsn s =
     (case versions s v of
        None \<Rightarrow> Some (Inl Invalid_pointer)
      | Some V \<Rightarrow>
          Option.bind
            (case prev V of
               None \<Rightarrow> Some (Inr (False, s))
             | Some p \<Rightarrow> clean_old_versions p min_vsn s)
            (\<lambda>r. case r of
                    Inl e \<Rightarrow> Some (Inl e)
                  | Inr (rec, s1) \<Rightarrow> Some (clean_this v min_vsn rec s1)))"

declare clean_old_versions.simps [code]

text \<open>The minimum over the client records (lines 863--869).\<close>

fun min_client_vsn :: "filtmgr_client list \<Rightarrow> 64 word \<Rightarrow> 64 word" where
  "min_client_vsn [] min_vsn = min_vsn"
| "min_client_vsn (cl # cls) min_vsn =
     min_client_vsn cls (if cl_vsn cl < min_vsn then cl_vsn cl else min_vsn)"

text \<open>One pass of the loop of \<open>filtmgr_thread_main\<close> (lines 858--879), after the sleep.\<close>

definition vacuum_pass :: "'f bloom_filtmgr \<Rightarrow> (fault + 'f bloom_filtmgr) option" where
  "vacuum_pass s =
     (case versions s (latest s) of
        None \<Rightarrow> Some (Inl Invalid_pointer)
      | Some C \<Rightarrow>
          if prev C = None then Some (Inr s)
          else
            Option.bind (clean_old_versions (latest s) (min_client_vsn (clients s) (vsn C)) s)
              (\<lambda>r. case r of
                      Inl e \<Rightarrow> Some (Inl e)
                    | Inr (rec, s') \<Rightarrow> Some (Inr s')))"

text \<open>\<open>filtmgr_vacuum\<close> (lines 890--895).\<close>

definition filtmgr_vacuum :: "'f bloom_filtmgr \<Rightarrow> (fault + 'f bloom_filtmgr) option" where
  "filtmgr_vacuum s =
     (case versions s (latest s) of
        None \<Rightarrow> Some (Inl Invalid_pointer)
      | Some L \<Rightarrow>
          Option.bind (clean_old_versions (latest s) (vsn L) s)
            (\<lambda>r. case r of
                    Inl e \<Rightarrow> Some (Inl e)
                  | Inr (rec, s') \<Rightarrow> Some (Inr s')))"

subsection \<open>A small instance\<close>

text \<open>
  An in-memory stand-in for filter.h and a manager state with two versions, on which
  the theorems below are instantiated. The filter named \<open>broken\<close> cannot be
  initialised and the key \<open>!\<close> makes a filter err. In \<open>demo_mgr\<close> version 1 is the
  latest; \<open>baz\<close> was dropped in the step from version 0 to version 1 and is parked on
  version 0; the wrapper of \<open>bar\<close> is in the latest index but not active.
\<close>

record demo_filter =
  df_name :: string
  df_keys :: "string list"
  df_proxied :: bool

definition demo_api :: "demo_filter filter_api" where
  "demo_api =
     \<lparr>init_bloom_filter = (\<lambda>cfg name hot.
          if name = ''broken'' then None
          else Some \<lparr>df_name = name, df_keys = [], df_proxied = False\<rparr>),
      bloomf_contains = (\<lambda>f k.
          if k = ''!'' then (- 1, f) else if k \<in> set (df_keys f) then (1, f) else (0, f)),
      bloomf_add = (\<lambda>f k.
          if k = ''!'' then (- 1, f)
          else if k \<in> set (df_keys f) then (0, f)
          else (1, f\<lparr>df_keys := k # df_keys f\<rparr>)),
      bloomf_flush = (\<lambda>f. f),
      bloomf_close = (\<lambda>f. f),
      bloomf_is_proxied = df_proxied,
      filter_name = df_name,
      in_memory = (\<lambda>f. False)\<rparr>"

definition demo_wrapper :: "string \<Rightarrow> bool \<Rightarrow> bool \<Rightarrow> bool \<Rightarrow> demo_filter bloom_filter_wrapper" where
  "demo_wrapper name active hot del =
     \<lparr>is_active = active, is_hot = hot, should_delete = del,
      filter_obj = \<lparr>df_name = name, df_keys = [], df_proxied = False\<rparr>, custom = None\<rparr>"

definition demo_v0 :: filtmgr_vsn where
  "demo_v0 = \<lparr>vsn = 0, filter_map = [(''foo'', 10), (''bar'', 11), (''baz'', 12)],
               deleted = Some 12, prev = None\<rparr>"

definition demo_v1 :: filtmgr_vsn where
  "demo_v1 = \<lparr>vsn = 1, filter_map = [(''foo'', 10), (''bar'', 11)],
               deleted = None, prev = Some 0\<rparr>"

definition demo_mgr :: "demo_filter bloom_filtmgr" where
  "demo_mgr =
     \<lparr>config = 0, latest = 1, clients = [],
      versions = [0 \<mapsto> demo_v0, 1 \<mapsto> demo_v1],
      wrappers = [10 \<mapsto> demo_wrapper ''foo'' True True False,
                  11 \<mapsto> demo_wrapper ''bar'' False False False,
                  12 \<mapsto> demo_wrapper ''baz'' False False True],
      reclaimed = []\<rparr>"

subsection \<open>Version chains\<close>

text \<open>
  \<open>is_chain h p vs\<close>: following \<open>prev\<close> from the pointer \<open>p\<close> through the allocated
  versions of \<open>h\<close> visits exactly \<open>vs\<close>, newest first, and ends at NULL.
\<close>

fun is_chain :: "(vsn_ptr \<rightharpoonup> filtmgr_vsn) \<Rightarrow> vsn_ptr option \<Rightarrow> vsn_ptr list \<Rightarrow> bool" where
  "is_chain h p [] = (p = None)"
| "is_chain h p (v # vs) =
     (p = Some v \<and> (case h v of None \<Rightarrow> False | Some V \<Rightarrow> is_chain h (prev V) vs))"

definition vsn_of :: "(vsn_ptr \<rightharpoonup> filtmgr_vsn) \<Rightarrow> vsn_ptr \<Rightarrow> 64 word" where
  "vsn_of h v = (case h v of None \<Rightarrow> 0 | Some V \<Rightarrow> vsn V)"

definition deleted_of :: "(vsn_ptr \<rightharpoonup> filtmgr_vsn) \<Rightarrow> vsn_ptr \<Rightarrow> wrapper_ptr option" where
  "deleted_of h v = (case h v of None \<Rightarrow> None | Some V \<Rightarrow> deleted V)"

text \<open>The wrappers parked in the \<open>deleted\<close> slots of the versions \<open>vs\<close>, in that order.\<close>

fun parked :: "(vsn_ptr \<rightharpoonup> filtmgr_vsn) \<Rightarrow> vsn_ptr list \<Rightarrow> wrapper_ptr list" where
  "parked h [] = []"
| "parked h (v # vs) =
     (case deleted_of h v of None \<Rightarrow> parked h vs | Some d \<Rightarrow> d # parked h vs)"

text \<open>The wrapper at \<open>d\<close> holds a filter whose \<open>filter_name\<close> is \<open>name\<close>.\<close>

definition pending_name :: "'f filter_api \<Rightarrow> 'f bloom_filtmgr \<Rightarrow> string \<Rightarrow> wrapper_ptr \<Rightarrow> bool" where
  "pending_name api s name d =
     (case wrappers s d of None \<Rightarrow> False | Some W \<Rightarrow> filter_name api (filter_obj W) = name)"

subsection \<open>Vocabulary of the statements\<close>

text \<open>
  The per-key answers of a batch, following the specification's words: the underlying
  call is made on each key in turn, on the filter as the previous call left it, and the
  batch stops with the first answer -1. The result is the answers up to and including
  that error, and the filter after the last call.
\<close>

fun answers :: "('f \<Rightarrow> string \<Rightarrow> int \<times> 'f) \<Rightarrow> 'f \<Rightarrow> string list \<Rightarrow> int list \<times> 'f" where
  "answers call f [] = ([], f)"
| "answers call f (k # ks) =
     (case call f k of
        (r, f') \<Rightarrow>
          if r = - 1 then ([r], f')
          else (case answers call f' ks of (rs, f'') \<Rightarrow> (r # rs, f'')))"

text \<open>The answers before the first error, as stored into a \<open>char\<close> array.\<close>

definition written :: "int list \<Rightarrow> 8 word list" where
  "written rs = map word_of_int (takeWhile (\<lambda>r. r \<noteq> - 1) rs)"

text \<open>The state after traffic on the wrapper at \<open>filt\<close>: its filter as the calls left it, and hot.\<close>

definition touched :: "'f bloom_filtmgr \<Rightarrow> wrapper_ptr \<Rightarrow> 'f bloom_filter_wrapper \<Rightarrow> 'f \<Rightarrow> 'f bloom_filtmgr" where
  "touched s filt W f' = s\<lparr>wrappers := (wrappers s)(filt \<mapsto> W\<lparr>filter_obj := f', is_hot := True\<rparr>)\<rparr>"

text \<open>An index entry whose wrapper is active; a wrapper that is neither hot nor proxied.\<close>

definition listed :: "'f bloom_filtmgr \<Rightarrow> string \<times> wrapper_ptr \<Rightarrow> bool" where
  "listed s e = (case wrappers s (snd e) of None \<Rightarrow> False | Some W \<Rightarrow> is_active W)"

definition cold :: "'f filter_api \<Rightarrow> 'f bloom_filtmgr \<Rightarrow> wrapper_ptr \<Rightarrow> bool" where
  "cold api s w =
     (case wrappers s w of None \<Rightarrow> False
      | Some W \<Rightarrow> \<not> is_hot W \<and> \<not> bloomf_is_proxied api (filter_obj W))"

text \<open>The state with the \<open>is_active\<close> flag of every wrapper replaced by \<open>g\<close> of its address.\<close>

definition set_active :: "(wrapper_ptr \<Rightarrow> bool) \<Rightarrow> 'f bloom_filtmgr \<Rightarrow> 'f bloom_filtmgr" where
  "set_active g s = s\<lparr>wrappers := (\<lambda>w. map_option (\<lambda>W. W\<lparr>is_active := g w\<rparr>) (wrappers s w))\<rparr>"

subsection \<open>What a sweep leaves\<close>

text \<open>
  The state \<open>clean_old_versions\<close> is proved to leave when it is run with \<open>min_vsn = m\<close> on
  the chain \<open>ch\<close>: a version of the chain below \<open>m\<close> is freed; a version that stays
  keeps its fields, but its \<open>prev\<close> is cleared if it pointed at a freed version; the
  wrappers parked on the freed versions are freed, and the call \<open>delete_filter\<close> made
  on each is recorded, the newest version's first.
\<close>

definition doomed :: "(vsn_ptr \<rightharpoonup> filtmgr_vsn) \<Rightarrow> 64 word \<Rightarrow> vsn_ptr \<Rightarrow> bool" where
  "doomed h m v = (vsn_of h v < m)"

definition reclaim_call_of :: "'f bloom_filter_wrapper \<Rightarrow> 'f reclaim_call" where
  "reclaim_call_of W =
     (if should_delete W then Bloomf_delete (filter_obj W) else Bloomf_close (filter_obj W))"

definition reclaim_calls :: "'f bloom_filtmgr \<Rightarrow> wrapper_ptr list \<Rightarrow> 'f reclaim_call list" where
  "reclaim_calls s ds =
     concat (map (\<lambda>d. case wrappers s d of None \<Rightarrow> [] | Some W \<Rightarrow> [reclaim_call_of W]) ds)"

definition swept_versions :: "vsn_ptr list \<Rightarrow> 64 word \<Rightarrow> (vsn_ptr \<rightharpoonup> filtmgr_vsn) \<Rightarrow> (vsn_ptr \<rightharpoonup> filtmgr_vsn)" where
  "swept_versions ch m h =
     (\<lambda>u. if u \<in> set ch then
             (case h u of
                None \<Rightarrow> None
              | Some V \<Rightarrow>
                  if vsn V < m then None
                  else Some (V\<lparr>prev := (case prev V of
                                          None \<Rightarrow> None
                                        | Some p \<Rightarrow> if doomed h m p then None else Some p)\<rparr>))
           else h u)"

definition swept :: "vsn_ptr list \<Rightarrow> 64 word \<Rightarrow> 'f bloom_filtmgr \<Rightarrow> 'f bloom_filtmgr" where
  "swept ch m s =
     s\<lparr>versions := swept_versions ch m (versions s),
       wrappers := (\<lambda>w. if w \<in> set (parked (versions s) (filter (doomed (versions s) m) ch))
                         then None else wrappers s w),
       reclaimed := reclaim_calls s (parked (versions s) (filter (doomed (versions s) m) ch))
                      @ reclaimed s\<rparr>"

subsection \<open>Manager calls and reachable states\<close>

text \<open>
  One call of a public function on an initialised manager, with what the environment
  contributes to it (thread identity, addresses returned by \<open>calloc\<close>, outcome of
  \<open>art_copy\<close>, the callback), and the state the call leaves.
\<close>

datatype 'f manager_call =
    Checkpoint thread_id
  | Leave thread_id
  | Flush string
  | Check_keys string "string list" int "8 word list"
  | Set_keys string "string list" int "8 word list"
  | Create vsn_ptr wrapper_ptr bool string "config_ptr option"
  | Drop vsn_ptr bool string
  | Unmap string
  | Clear vsn_ptr bool string
  | List_filters "string option"
  | List_cold
  | Filter_cb string "string \<Rightarrow> 'f \<Rightarrow> 'f"
  | Vacuum_pass
  | Vacuum

fun state_after :: "'f filter_api \<Rightarrow> 'f manager_call \<Rightarrow> 'f bloom_filtmgr \<Rightarrow> (fault + 'f bloom_filtmgr) option" where
  "state_after api (Checkpoint tid) s = Some (filtmgr_client_checkpoint tid s)"
| "state_after api (Leave tid) s = Some (Inr (filtmgr_client_leave tid s))"
| "state_after api (Flush name) s = Some (map_sum id snd (filtmgr_flush_filter api s name))"
| "state_after api (Check_keys name keys n result) s =
     Some (map_sum id (\<lambda>(r, res, s'). s') (filtmgr_check_keys api s name keys n result))"
| "state_after api (Set_keys name keys n result) s =
     Some (map_sum id (\<lambda>(r, res, s'). s') (filtmgr_set_keys api s name keys n result))"
| "state_after api (Create p filt copy_ok name cc) s =
     map_option (map_sum id snd) (filtmgr_create_filter api p filt copy_ok s name cc)"
| "state_after api (Drop p copy_ok name) s =
     Some (map_sum id snd (filtmgr_drop_filter p copy_ok s name))"
| "state_after api (Unmap name) s = Some (map_sum id snd (filtmgr_unmap_filter api s name))"
| "state_after api (Clear p copy_ok name) s =
     Some (map_sum id snd (filtmgr_clear_filter api p copy_ok s name))"
| "state_after api (List_filters pfx) s = Some (map_sum id (\<lambda>r. s) (filtmgr_list_filters s pfx))"
| "state_after api List_cold s =
     Some (map_sum id (\<lambda>(r, head, s'). s') (filtmgr_list_cold_filters api s))"
| "state_after api (Filter_cb name cb) s = Some (map_sum id snd (filtmgr_filter_cb s name cb))"
| "state_after api Vacuum_pass s = vacuum_pass s"
| "state_after api Vacuum s = filtmgr_vacuum s"

text \<open>\<open>calloc\<close> returns an address that is not allocated.\<close>

fun alloc_ok :: "'f manager_call \<Rightarrow> 'f bloom_filtmgr \<Rightarrow> bool" where
  "alloc_ok (Create p filt copy_ok name cc) s = (versions s p = None \<and> wrappers s filt = None)"
| "alloc_ok (Drop p copy_ok name) s = (versions s p = None)"
| "alloc_ok (Clear p copy_ok name) s = (versions s p = None)"
| "alloc_ok c s = True"

text \<open>\<open>demo_mgr\<close> with the wrapper of \<open>foo\<close> cold.\<close>

definition demo_cold_mgr :: "demo_filter bloom_filtmgr" where
  "demo_cold_mgr = demo_mgr\<lparr>wrappers := (wrappers demo_mgr)(10 \<mapsto> demo_wrapper ''foo'' True False False)\<rparr>"

text \<open>Between two contents of a wrapper address: still allocated or still free, and not hotter.\<close>

definition cooler :: "'f bloom_filter_wrapper option \<Rightarrow> 'f bloom_filter_wrapper option \<Rightarrow> bool" where
  "cooler a b =
     (case a of None \<Rightarrow> b = None
      | Some W \<Rightarrow> (case b of None \<Rightarrow> False | Some W' \<Rightarrow> is_hot W' \<longrightarrow> is_hot W))"

subsection \<open>Well-formed and reachable manager states\<close>

text \<open>
  \<open>wf_mgr s ch\<close>: \<open>ch\<close> is the version chain from \<open>latest\<close>; every wrapper parked on
  it is allocated and parked once; the wrappers in the latest index are allocated,
  pairwise different and not parked.
\<close>

definition wf_mgr :: "'f bloom_filtmgr \<Rightarrow> vsn_ptr list \<Rightarrow> bool" where
  "wf_mgr s ch =
     (is_chain (versions s) (Some (latest s)) ch
      \<and> distinct (parked (versions s) ch)
      \<and> (\<forall>d\<in>set (parked (versions s) ch). wrappers s d \<noteq> None)
      \<and> (\<forall>L. versions s (latest s) = Some L \<longrightarrow>
            distinct (map snd (filter_map L))
            \<and> (\<forall>e\<in>set (filter_map L).
                  wrappers s (snd e) \<noteq> None \<and> snd e \<notin> set (parked (versions s) ch))))"

text \<open>Each number in the list is the next one plus one, in 64-bit arithmetic.\<close>

fun stepwise :: "64 word list \<Rightarrow> bool" where
  "stepwise [] = True"
| "stepwise [x] = True"
| "stepwise (x # y # r) = (x = y + 1 \<and> stepwise (y # r))"

text \<open>
  \<open>numbered n s ch\<close>: a well-formed state whose chain is numbered stepwise down from
  \<open>n\<close> modulo \<open>2 ^ 64\<close> and has at most \<open>n + 1\<close> versions.
\<close>

definition numbered :: "nat \<Rightarrow> 'f bloom_filtmgr \<Rightarrow> vsn_ptr list \<Rightarrow> bool" where
  "numbered n s ch =
     (wf_mgr s ch
      \<and> stepwise (map (vsn_of (versions s)) ch)
      \<and> vsn_of (versions s) (latest s) = of_nat n
      \<and> length ch \<le> n + 1)"

text \<open>A call that leaves the versions alone and frees no wrapper.\<close>

definition frame :: "'f bloom_filtmgr \<Rightarrow> 'f bloom_filtmgr \<Rightarrow> bool" where
  "frame s s' =
     (versions s' = versions s \<and> latest s' = latest s
      \<and> (\<forall>w. wrappers s w \<noteq> None \<longrightarrow> wrappers s' w \<noteq> None))"

text \<open>
  \<open>reachable n s\<close>: \<open>s\<close> is the state of a manager after \<open>init_filter_manager\<close> has
  returned 0 and any number of calls have returned, \<open>n\<close> of which installed a new
  latest version. Every \<open>calloc\<close> returns an address that is not in use.
\<close>

inductive reachable :: "nat \<Rightarrow> 'f bloom_filtmgr \<Rightarrow> bool" where
  init: "init_filter_manager api art_ok thread_ok cfg v0 calloc_w dir = Inr (0, Some s) \<Longrightarrow>
         inj calloc_w \<Longrightarrow> reachable 0 s"
| call: "reachable n s \<Longrightarrow> alloc_ok c s \<Longrightarrow> state_after api c s = Some (Inr s') \<Longrightarrow>
         reachable (n + (if latest s' = latest s then 0 else 1)) s'"

text \<open>
  The state of the loader before iteration \<open>i\<close>: one version at \<open>v0\<close>, numbered 0,
  whose index holds allocated, pairwise different wrappers at addresses handed out in
  earlier iterations.
\<close>

definition loading :: "vsn_ptr \<Rightarrow> (nat \<Rightarrow> wrapper_ptr) \<Rightarrow> nat \<Rightarrow> 'f bloom_filtmgr \<Rightarrow> bool" where
  "loading v0 calloc_w i s =
     (latest s = v0
      \<and> (\<exists>idx. versions s = [v0 \<mapsto> \<lparr>vsn = 0, filter_map = idx, deleted = None, prev = None\<rparr>]
            \<and> distinct (map snd idx)
            \<and> snd ` set idx \<subseteq> calloc_w ` {..<i}
            \<and> (\<forall>e\<in>set idx. wrappers s (snd e) \<noteq> None)))"

text \<open>The manager \<open>init_filter_manager\<close> returns for an unreadable data directory.\<close>

definition demo_init :: "demo_filter bloom_filtmgr" where
  "demo_init =
     \<lparr>config = 0, latest = 0, clients = [],
      versions = [0 \<mapsto> \<lparr>vsn = 0, filter_map = [], deleted = None, prev = None\<rparr>],
      wrappers = Map.empty, reclaimed = []\<rparr>"

text \<open>
  Two shapes of a manager with a single version, numbered \<open>n\<close> modulo \<open>2 ^ 64\<close>, at
  address \<open>l\<close>: with an empty index, and with the one filter \<open>a\<close> that \<open>demo_api\<close>
  creates, in a wrapper at address 10.
\<close>

definition demo_a :: "demo_filter bloom_filter_wrapper" where
  "demo_a = \<lparr>is_active = True, is_hot = True, should_delete = False,
             filter_obj = \<lparr>df_name = ''a'', df_keys = [], df_proxied = False\<rparr>, custom = None\<rparr>"

definition lean_empty :: "nat \<Rightarrow> vsn_ptr \<Rightarrow> demo_filter reclaim_call list \<Rightarrow> demo_filter bloom_filtmgr" where
  "lean_empty n l log =
     \<lparr>config = 0, latest = l, clients = [],
      versions = [l \<mapsto> \<lparr>vsn = of_nat n, filter_map = [], deleted = None, prev = None\<rparr>],
      wrappers = Map.empty, reclaimed = log\<rparr>"

definition lean_full :: "nat \<Rightarrow> vsn_ptr \<Rightarrow> demo_filter reclaim_call list \<Rightarrow> demo_filter bloom_filtmgr" where
  "lean_full n l log =
     \<lparr>config = 0, latest = l, clients = [],
      versions = [l \<mapsto> \<lparr>vsn = of_nat n, filter_map = [(''a'', 10)], deleted = None, prev = None\<rparr>],
      wrappers = [10 \<mapsto> demo_a], reclaimed = log\<rparr>"

text \<open>\<open>lean_full n l log\<close> after \<open>a\<close> has been dropped, the new version being at \<open>l'\<close>.\<close>

definition lean_dropped :: "nat \<Rightarrow> vsn_ptr \<Rightarrow> vsn_ptr \<Rightarrow> demo_filter reclaim_call list \<Rightarrow> demo_filter bloom_filtmgr" where
  "lean_dropped n l l' log =
     \<lparr>config = 0, latest = l', clients = [],
      versions = [l \<mapsto> \<lparr>vsn = of_nat n, filter_map = [(''a'', 10)], deleted = Some 10, prev = None\<rparr>,
                  l' \<mapsto> \<lparr>vsn = of_nat n + 1, filter_map = [], deleted = None, prev = Some l\<rparr>],
      wrappers = [10 \<mapsto> demo_a\<lparr>is_active := False, should_delete := True\<rparr>],
      reclaimed = log\<rparr>"

text \<open>
  The manager \<open>init_filter_manager\<close> returns when the data directory holds the folder
  of the filter \<open>foo\<close>: one version, one wrapper, made by the loader.
\<close>

definition demo_loaded :: "demo_filter bloom_filtmgr" where
  "demo_loaded =
     \<lparr>config = 0, latest = 0, clients = [],
      versions = [0 \<mapsto> \<lparr>vsn = 0, filter_map = [(''foo'', 10)], deleted = None, prev = None\<rparr>],
      wrappers = [10 \<mapsto> demo_wrapper ''foo'' True False False], reclaimed = []\<rparr>"

section \<open>Properties\<close>

subsection \<open>The loader's directory filter\<close>



subsection \<open>Creating a filter\<close>

text \<open>
  C6. When the index of the latest version has an entry for the name, whatever the
  \<open>is_active\<close> flag of its wrapper, \<open>filtmgr_create_filter\<close> returns -1 and the manager
  state is the one it started from: no version is built or installed.
\<close>

theorem create_existing_name:
  assumes "versions s (latest s) = Some L"
    and "art_search (filter_map L) name = Some found"
  shows "filtmgr_create_filter api p filt copy_ok s name custom_config = Some (Inr (- 1, s))"
  using assms by (simp add: filtmgr_create_filter_def)

theorem create_existing_name_witness:
  "versions demo_mgr (latest demo_mgr) = Some demo_v1
   \<and> art_search (filter_map demo_v1) ''bar'' = Some 11
   \<and> map_option is_active (wrappers demo_mgr 11) = Some False
   \<and> filtmgr_create_filter demo_api 2 13 True demo_mgr ''bar'' None = Some (Inr (- 1, demo_mgr))"
  using create_existing_name [of demo_mgr demo_v1 "''bar''" 11 demo_api 2 13 True None]
  by (simp add: demo_mgr_def demo_v1_def demo_wrapper_def art_search_def)

lemma pending_delete_scan_chain:
  assumes "is_chain (versions s) vp older"
    and "\<forall>d\<in>set (parked (versions s) older). wrappers s d \<noteq> None"
  shows "pending_delete_scan api s vp name =
           Some (Inr (\<exists>d\<in>set (parked (versions s) older). pending_name api s name d))"
  using assms
proof (induction older arbitrary: vp)
  case Nil
  then show ?case by (subst pending_delete_scan.simps) simp
next
  case (Cons v vs)
  from Cons.prems(1) obtain V where vp: "vp = Some v" and V: "versions s v = Some V"
    and ch: "is_chain (versions s) (prev V) vs"
    by (auto split: option.splits)
  show ?case
  proof (cases "deleted V")
    case None
    with V have pk: "parked (versions s) (v # vs) = parked (versions s) vs"
      by (simp add: deleted_of_def)
    have "pending_delete_scan api s vp name = pending_delete_scan api s (prev V) name"
      using vp V None by (subst pending_delete_scan.simps) simp
    also have "\<dots> = Some (Inr (\<exists>d\<in>set (parked (versions s) vs). pending_name api s name d))"
      using Cons.IH [OF ch] Cons.prems(2) pk by simp
    finally show ?thesis using pk by simp
  next
    case (Some d)
    with V have pk: "parked (versions s) (v # vs) = d # parked (versions s) vs"
      by (simp add: deleted_of_def)
    with Cons.prems(2) obtain W where W: "wrappers s d = Some W" by auto
    show ?thesis
    proof (cases "filter_name api (filter_obj W) = name")
      case True
      then show ?thesis using vp V Some W pk
        by (subst pending_delete_scan.simps) (simp add: pending_name_def)
    next
      case False
      have "pending_delete_scan api s vp name = pending_delete_scan api s (prev V) name"
        using vp V Some W False by (subst pending_delete_scan.simps) simp
      also have "\<dots> = Some (Inr (\<exists>d\<in>set (parked (versions s) vs). pending_name api s name d))"
        using Cons.IH [OF ch] Cons.prems(2) pk by simp
      finally show ?thesis using pk W False by (simp add: pending_name_def)
    qed
  qed
qed



lemma create_after_scan:
  assumes "versions s (latest s) = Some L"
    and "art_search (filter_map L) name = None"
    and "is_chain (versions s) (prev L) older"
    and "\<forall>d\<in>set (parked (versions s) older). wrappers s d \<noteq> None"
  shows "filtmgr_create_filter api p filt copy_ok s name cc =
           (if \<exists>d\<in>set (parked (versions s) older). pending_name api s name d
            then Some (Inr (- 3, s))
            else Some (create_install api p filt copy_ok s name cc))"
  using assms(1,2) pending_delete_scan_chain [OF assms(3,4), of api name]
  by (simp add: filtmgr_create_filter_def)




subsection \<open>Dropping a filter\<close>


lemma take_filter_resolves:
  "versions s (latest s) = Some L \<Longrightarrow>
   (take_filter s (latest s) name = Inr (Some filt)) =
     (art_search (filter_map L) name = Some filt \<and> (\<exists>W. wrappers s filt = Some W \<and> is_active W))"
  by (auto simp: take_filter_def split: option.splits)

lemma take_filter_absent:
  "versions s (latest s) = Some L \<Longrightarrow>
   (take_filter s (latest s) name = Inr None) =
     (art_search (filter_map L) name = None \<or>
      (\<exists>filt W. art_search (filter_map L) name = Some filt \<and> wrappers s filt = Some W \<and> \<not> is_active W))"
  by (auto simp: take_filter_def split: option.splits)




subsection \<open>Batches of keys\<close>

lemma keys_loop_answers:
  assumes "i \<le> length keys" and "length result = length keys"
  shows "keys_loop call keys (int (length keys)) (int i) res f result =
           (case answers call f (drop i keys) of
              (rs, f') \<Rightarrow>
                Inr (if rs = [] then res else last rs, f',
                     take i result @ written rs @ drop (i + length (written rs)) result))"
  using assms
proof (induction "length keys - i" arbitrary: i res f result)
  case 0
  then have "i = length keys" by simp
  then show ?case using 0 by (simp add: written_def)
next
  case (Suc n)
  then have lt: "i < length keys" by simp
  have dk: "drop i keys = keys ! i # drop (Suc i) keys"
    using lt by (simp add: Cons_nth_drop_Suc)
  obtain r f1 where c: "call f (keys ! i) = (r, f1)" by (cases "call f (keys ! i)")
  show ?case
  proof (cases "r = - 1")
    case True
    then show ?thesis using lt c dk Suc.prems by (simp add: written_def)
  next
    case False
    have n: "n = length keys - Suc i" using Suc.hyps(2) by simp
    have len: "length (result[i := word_of_int r]) = length keys" using Suc.prems by simp
    have le: "Suc i \<le> length keys" using lt by simp
    obtain rs f2 where a: "answers call f1 (drop (Suc i) keys) = (rs, f2)"
      by (cases "answers call f1 (drop (Suc i) keys)")
    have step: "keys_loop call keys (int (length keys)) (int i) res f result =
        keys_loop call keys (int (length keys)) (int (Suc i)) r f1 (result[i := word_of_int r])"
      using lt c False Suc.prems by (subst keys_loop.simps) (simp add: add.commute)
    have ih: "keys_loop call keys (int (length keys)) (int (Suc i)) r f1 (result[i := word_of_int r]) =
        Inr (if rs = [] then r else last rs, f2,
             take (Suc i) (result[i := word_of_int r]) @ written rs
               @ drop (Suc i + length (written rs)) (result[i := word_of_int r]))"
      using Suc.hyps(1) [OF n le len, of r f1] a by simp
    have t: "take (Suc i) (result[i := word_of_int r]) = take i result @ [word_of_int r]"
      using lt Suc.prems by (simp add: take_Suc_conv_app_nth)
    have w: "written (r # rs) = word_of_int r # written rs"
      using False by (simp add: written_def)
    show ?thesis
      unfolding step ih dk using c False a t w by simp
  qed
qed

lemma keys_op_answers:
  assumes "take_filter s (latest s) name = Inr (Some filt)"
    and "wrappers s filt = Some W"
    and "length result = length keys"
    and "answers call (filter_obj W) keys = (rs, f')"
  shows "keys_op call s name keys (int (length keys)) result =
           Inr (if rs \<noteq> [] \<and> last rs = - 1 then - 2 else 0,
                written rs @ drop (length (written rs)) result,
                touched s filt W f')"
  using assms keys_loop_answers [of 0 keys result call 0 "filter_obj W"]
  by (auto simp: keys_op_def touched_def)

lemma answers_no_error:
  "answers call f keys = (rs, f') \<Longrightarrow> - 1 \<notin> set rs \<Longrightarrow>
     length rs = length keys \<and> written rs = map word_of_int rs"
proof (induction keys arbitrary: f rs)
  case Nil
  then show ?case by (simp add: written_def)
next
  case (Cons k ks)
  then show ?case
    by (auto simp: written_def split: prod.splits if_splits)
qed

lemma answers_stop_at_error:
  "answers call f keys = (rs, f') \<Longrightarrow> - 1 \<notin> set (butlast rs) \<and> length rs \<le> length keys"
proof (induction keys arbitrary: f rs)
  case Nil
  then show ?case by simp
next
  case (Cons k ks)
  then show ?case
    by (fastforce split: prod.splits if_splits)
qed

lemma keys_op_absent:
  "take_filter s (latest s) name = Inr None \<Longrightarrow>
     keys_op call s name keys num_keys result = Inr (- 1, result, s)"
  by (simp add: keys_op_def)

text \<open>
  C4. \<open>op\<close> is \<open>filtmgr_check_keys\<close> with \<open>bloomf_contains\<close> or \<open>filtmgr_set_keys\<close> with
  \<open>bloomf_add\<close>, on \<open>N\<close> keys and a result array of \<open>N\<close> slots. When the name resolves to
  an active wrapper and \<open>rs\<close> are the per-key answers: if none is -1 there are \<open>N\<close> of
  them, the call returns 0 and the result array holds them all; if the first error
  comes after the answers \<open>pre\<close>, at index \<open>length pre\<close>, the call returns -2, the
  slots before that index hold \<open>pre\<close> and the slots from that index on are as the caller
  passed them. When the name does not resolve, the call returns -1 and the array and
  the state are as passed.
\<close>

theorem batch_partial_failure:
  assumes "(op, call) = (filtmgr_check_keys api, bloomf_contains api)
           \<or> (op, call) = (filtmgr_set_keys api, bloomf_add api)"
    and "length result = length keys"
  shows "(take_filter s (latest s) name = Inr (Some filt) \<and> wrappers s filt = Some W
           \<and> answers call (filter_obj W) keys = (rs, f') \<longrightarrow>
            (- 1 \<notin> set rs \<longrightarrow>
               length rs = length keys
               \<and> op s name keys (int (length keys)) result =
                   Inr (0, map word_of_int rs, touched s filt W f'))
            \<and> (\<forall>pre. rs = pre @ [- 1] \<longrightarrow>
                 - 1 \<notin> set pre \<and> length pre < length keys
                 \<and> op s name keys (int (length keys)) result =
                     Inr (- 2, map word_of_int pre @ drop (length pre) result, touched s filt W f')))
       \<and> (take_filter s (latest s) name = Inr None \<longrightarrow>
            op s name keys (int (length keys)) result = Inr (- 1, result, s))"
proof -
  have c: "filtmgr_check_keys api = keys_op (bloomf_contains api)"
    by (intro ext) (simp add: filtmgr_check_keys_def)
  have b: "filtmgr_set_keys api = keys_op (bloomf_add api)"
    by (intro ext) (simp add: filtmgr_set_keys_def)
  have op: "op = keys_op call"
    using assms(1) c b by auto
  show ?thesis
  proof (intro conjI impI allI)
    assume a: "take_filter s (latest s) name = Inr (Some filt) \<and> wrappers s filt = Some W
           \<and> answers call (filter_obj W) keys = (rs, f')" and n: "- 1 \<notin> set rs"
    from a have an: "answers call (filter_obj W) keys = (rs, f')" by simp
    from answers_no_error [OF an n]
    have l: "length rs = length keys" and w: "written rs = map word_of_int rs" by simp_all
    show "length rs = length keys" by (rule l)
    have "\<not> (rs \<noteq> [] \<and> last rs = - 1)" using n last_in_set by metis
    then show "op s name keys (int (length keys)) result =
                   Inr (0, map word_of_int rs, touched s filt W f')"
      using a keys_op_answers [of s name filt W result keys call rs f'] assms(2) w l
      unfolding op by simp
  next
    fix pre
    assume a: "take_filter s (latest s) name = Inr (Some filt) \<and> wrappers s filt = Some W
           \<and> answers call (filter_obj W) keys = (rs, f')" and r: "rs = pre @ [- 1]"
    from a r answers_stop_at_error [of call "filter_obj W" keys rs f']
    show p: "- 1 \<notin> set pre" and "length pre < length keys" by simp_all
    then have w: "written rs = map word_of_int pre"
      using r by (simp add: written_def takeWhile_append)
    show "op s name keys (int (length keys)) result =
            Inr (- 2, map word_of_int pre @ drop (length pre) result, touched s filt W f')"
      using a keys_op_answers [of s name filt W result keys call rs f'] assms(2) w r
      unfolding op by simp
  next
    assume "take_filter s (latest s) name = Inr None"
    then show "op s name keys (int (length keys)) result = Inr (- 1, result, s)"
      unfolding op by (rule keys_op_absent)
  qed
qed

theorem batch_partial_failure_witness:
  "take_filter demo_mgr (latest demo_mgr) ''foo'' = Inr (Some 10)
   \<and> answers (bloomf_add demo_api) (filter_obj (demo_wrapper ''foo'' True True False)) [''a'', ''!'', ''b'']
       = ([1, - 1], \<lparr>df_name = ''foo'', df_keys = [''a''], df_proxied = False\<rparr>)
   \<and> filtmgr_set_keys demo_api demo_mgr ''foo'' [''a'', ''!'', ''b''] 3 [7, 7, 7] =
       Inr (- 2, [1, 7, 7],
            touched demo_mgr 10 (demo_wrapper ''foo'' True True False)
              \<lparr>df_name = ''foo'', df_keys = [''a''], df_proxied = False\<rparr>)
   \<and> filtmgr_set_keys demo_api demo_mgr ''foo'' [''a'', ''a''] 2 [7, 7] =
       Inr (0, [1, 0],
            touched demo_mgr 10 (demo_wrapper ''foo'' True True False)
              \<lparr>df_name = ''foo'', df_keys = [''a''], df_proxied = False\<rparr>)
   \<and> take_filter demo_mgr (latest demo_mgr) ''bar'' = Inr None
   \<and> filtmgr_set_keys demo_api demo_mgr ''bar'' [''a'', ''!'', ''b''] 3 [7, 7, 7] =
       Inr (- 1, [7, 7, 7], demo_mgr)"
proof -
  let ?W = "demo_wrapper ''foo'' True True False"
  let ?f = "\<lparr>df_name = ''foo'', df_keys = [''a''], df_proxied = False\<rparr>"
  have t: "take_filter demo_mgr (latest demo_mgr) ''foo'' = Inr (Some 10)"
    and w: "wrappers demo_mgr 10 = Some ?W"
    and n: "take_filter demo_mgr (latest demo_mgr) ''bar'' = Inr None"
    by (simp_all add: demo_mgr_def demo_v1_def demo_wrapper_def take_filter_def art_search_def)
  have a1: "answers (bloomf_add demo_api) (filter_obj ?W) [''a'', ''!'', ''b''] = ([1, - 1], ?f)"
    and a2: "answers (bloomf_add demo_api) (filter_obj ?W) [''a'', ''a''] = ([1, 0], ?f)"
    by (simp_all add: demo_api_def demo_wrapper_def)
  have o: "(filtmgr_set_keys demo_api, bloomf_add demo_api) = (filtmgr_check_keys demo_api, bloomf_contains demo_api)
           \<or> (filtmgr_set_keys demo_api, bloomf_add demo_api) = (filtmgr_set_keys demo_api, bloomf_add demo_api)"
    by simp
  show ?thesis
    using t w n a1 a2
      batch_partial_failure [OF o, of "[7, 7, 7]" "[''a'', ''!'', ''b'']" demo_mgr "''foo''" 10 ?W "[1, - 1]" ?f]
      batch_partial_failure [OF o, of "[7, 7]" "[''a'', ''a'']" demo_mgr "''foo''" 10 ?W "[1, 0]" ?f]
      batch_partial_failure [OF o, of "[7, 7, 7]" "[''a'', ''!'', ''b'']" demo_mgr "''bar''" 10 ?W "[1, - 1]" ?f]
    by simp
qed

subsection \<open>Listing\<close>

lemma art_iter_list_cb:
  assumes "\<forall>e\<in>set t. wrappers s (snd e) \<noteq> None"
  shows "art_iter t filter_map_list_cb (head, s) =
           Inr (0, rev (map fst (filter (listed s) t)) @ head, s)"
  using assms
proof (induction t arbitrary: head)
  case Nil
  then show ?case by simp
next
  case (Cons e t)
  obtain k w where e: "e = (k, w)" by (cases e)
  from Cons.prems e obtain W where W: "wrappers s w = Some W" by auto
  have t: "\<forall>e\<in>set t. wrappers s (snd e) \<noteq> None" using Cons.prems by simp
  show ?case
    using e W Cons.IH [OF t] by (simp add: filter_map_list_cb_def listed_def)
qed

lemma list_filters_names:
  assumes "versions s (latest s) = Some C"
    and "\<forall>e\<in>set (filter_map C). wrappers s (snd e) \<noteq> None"
  shows "filtmgr_list_filters s pfx =
           Inr (0, rev (map fst (filter (listed s)
                  (case pfx of None \<Rightarrow> filter_map C
                   | Some p \<Rightarrow> filter (\<lambda>(k, v). take (length p) k = p) (filter_map C)))))"
proof (cases pfx)
  case None
  then show ?thesis
    using assms art_iter_list_cb [of "filter_map C" s "[]"]
    by (simp add: filtmgr_list_filters_def)
next
  case (Some p)
  then show ?thesis
    using assms art_iter_list_cb [of "filter (\<lambda>(k, v). take (length p) k = p) (filter_map C)" s "[]"]
    by (simp add: filtmgr_list_filters_def art_iter_prefix_def)
qed

lemma inactive_not_listed:
  assumes "distinct (map fst t)" and "map_of t name = Some w"
    and "wrappers s w = Some W" and "\<not> is_active W" and "set t' \<subseteq> set t"
  shows "name \<notin> set (rev (map fst (filter (listed s) t')))"
proof
  assume "name \<in> set (rev (map fst (filter (listed s) t')))"
  then obtain w' where m: "(name, w') \<in> set t'" and l: "listed s (name, w')" by auto
  from assms(1,5) m have "map_of t name = Some w'" by auto
  with assms(2) have "w' = w" by simp
  with l assms(3,4) show False by (simp add: listed_def)
qed

lemma art_iter_cold_cb:
  assumes "\<forall>e\<in>set t. wrappers s (snd e) \<noteq> None"
  shows "\<exists>head' s'. art_iter t (filter_map_list_cold_cb api) (head, s) = Inr (0, head', s')
           \<and> set head \<subseteq> set head'
           \<and> (\<forall>e\<in>set t. cold api s (snd e) \<longrightarrow> fst e \<in> set head')
           \<and> (\<forall>w. cold api s w \<longrightarrow> cold api s' w)
           \<and> (\<forall>w. wrappers s w \<noteq> None \<longrightarrow> wrappers s' w \<noteq> None)"
  using assms
proof (induction t arbitrary: head s)
  case Nil
  then show ?case by simp
next
  case (Cons e t)
  obtain k w where e: "e = (k, w)" by (cases e)
  from Cons.prems e obtain W where W: "wrappers s w = Some W" by auto
  have t: "\<forall>e\<in>set t. wrappers s (snd e) \<noteq> None" using Cons.prems by simp
  show ?case
  proof (cases "is_hot W")
    case True
    let ?s1 = "s\<lparr>wrappers := (wrappers s)(w \<mapsto> W\<lparr>is_hot := False\<rparr>)\<rparr>"
    have t1: "\<forall>e\<in>set t. wrappers ?s1 (snd e) \<noteq> None" using t by simp
    have c1: "cold api s u \<Longrightarrow> cold api ?s1 u" for u
      using W True by (auto simp: cold_def)
    from Cons.IH [OF t1, of head] obtain head' s' where
      r: "art_iter t (filter_map_list_cold_cb api) (head, ?s1) = Inr (0, head', s')"
      and h: "set head \<subseteq> set head'"
      and em: "\<forall>e\<in>set t. cold api ?s1 (snd e) \<longrightarrow> fst e \<in> set head'"
      and cc: "\<forall>w. cold api ?s1 w \<longrightarrow> cold api s' w"
      and al: "\<forall>w. wrappers ?s1 w \<noteq> None \<longrightarrow> wrappers s' w \<noteq> None"
      by blast
    have "art_iter (e # t) (filter_map_list_cold_cb api) (head, s) = Inr (0, head', s')"
      using e W True r by (simp add: filter_map_list_cold_cb_def)
    moreover have "\<forall>e'\<in>set (e # t). cold api s (snd e') \<longrightarrow> fst e' \<in> set head'"
      using em c1 e W True by (auto simp: cold_def)
    moreover have "\<forall>w. cold api s w \<longrightarrow> cold api s' w" using cc c1 by blast
    moreover have "\<forall>u. wrappers s u \<noteq> None \<longrightarrow> wrappers s' u \<noteq> None" using al by auto
    ultimately show ?thesis using h by blast
  next
    case False
    let ?head1 = "if bloomf_is_proxied api (filter_obj W) then head else k # head"
    from Cons.IH [OF t, of ?head1] obtain head' s' where
      r: "art_iter t (filter_map_list_cold_cb api) (?head1, s) = Inr (0, head', s')"
      and h: "set ?head1 \<subseteq> set head'"
      and em: "\<forall>e\<in>set t. cold api s (snd e) \<longrightarrow> fst e \<in> set head'"
      and cc: "\<forall>w. cold api s w \<longrightarrow> cold api s' w"
      and al: "\<forall>w. wrappers s w \<noteq> None \<longrightarrow> wrappers s' w \<noteq> None"
      by blast
    have "art_iter (e # t) (filter_map_list_cold_cb api) (head, s) = Inr (0, head', s')"
      using e W False r
      by (cases "bloomf_is_proxied api (filter_obj W)") (simp_all add: filter_map_list_cold_cb_def)
    moreover have "\<forall>e'\<in>set (e # t). cold api s (snd e') \<longrightarrow> fst e' \<in> set head'"
      using em e W False h by (auto simp: cold_def split: if_splits)
    moreover have "set head \<subseteq> set head'" using h by (auto split: if_splits)
    ultimately show ?thesis using cc al by blast
  qed
qed

lemma cold_cb_set_active:
  "filter_map_list_cold_cb api (head, set_active g s) k w =
     map_sum id (\<lambda>(r, head', s'). (r, head', set_active g s'))
       (filter_map_list_cold_cb api (head, s) k w)"
  by (auto simp: filter_map_list_cold_cb_def set_active_def fun_eq_iff split: option.splits)

lemma art_iter_cold_set_active:
  "art_iter t (filter_map_list_cold_cb api) (head, set_active g s) =
     map_sum id (\<lambda>(r, head', s'). (r, head', set_active g s'))
       (art_iter t (filter_map_list_cold_cb api) (head, s))"
proof (induction t arbitrary: head s)
  case Nil
  then show ?case by simp
next
  case (Cons e t)
  obtain k w where e: "e = (k, w)" by (cases e)
  show ?case
  proof (cases "filter_map_list_cold_cb api (head, s) k w")
    case (Inl x)
    then show ?thesis using e by (simp add: cold_cb_set_active)
  next
    case (Inr y)
    obtain r head1 s1 where y: "y = (r, head1, s1)" by (cases y)
    show ?thesis using e Inr y Cons.IH [of head1 s1] by (simp add: cold_cb_set_active)
  qed
qed

lemma list_cold_set_active:
  "filtmgr_list_cold_filters api (set_active g s) =
     map_sum id (\<lambda>(r, head, s'). (r, head, set_active g s')) (filtmgr_list_cold_filters api s)"
proof -
  have v: "versions (set_active g s) = versions s" "latest (set_active g s) = latest s"
    by (simp_all add: set_active_def)
  show ?thesis
    unfolding filtmgr_list_cold_filters_def v
    by (auto simp: art_iter_cold_set_active split: option.splits sum.splits)
qed

text \<open>
  C10. Let the latest index (distinct names, allocated wrappers) map the name to a
  wrapper \<open>W\<close> whose \<open>is_active\<close> is false. Then \<open>filtmgr_list_filters\<close>, with a prefix or
  without, returns a list that does not hold the name; \<open>filtmgr_list_cold_filters\<close>
  returns a list that holds it whenever \<open>W\<close> is not hot and its filter is not proxied;
  and \<open>filtmgr_list_cold_filters\<close> does not read \<open>is_active\<close>: run on the state with
  every such flag replaced, it returns the same code and list, and the state it would
  have returned with the flags replaced in the same way.
\<close>

theorem inactive_wrapper_listing:
  assumes "versions s (latest s) = Some C"
    and "distinct (map fst (filter_map C))"
    and "\<forall>e\<in>set (filter_map C). wrappers s (snd e) \<noteq> None"
    and "art_search (filter_map C) name = Some w"
    and "wrappers s w = Some W"
    and "\<not> is_active W"
  shows "(\<exists>head. filtmgr_list_filters s pfx = Inr (0, head) \<and> name \<notin> set head)
       \<and> (\<not> is_hot W \<and> \<not> bloomf_is_proxied api (filter_obj W) \<longrightarrow>
            (\<exists>head s'. filtmgr_list_cold_filters api s = Inr (0, head, s') \<and> name \<in> set head))
       \<and> filtmgr_list_cold_filters api (set_active g s) =
            map_sum id (\<lambda>(r, head, s'). (r, head, set_active g s')) (filtmgr_list_cold_filters api s)"
proof (intro conjI impI)
  let ?t = "case pfx of None \<Rightarrow> filter_map C
            | Some p \<Rightarrow> filter (\<lambda>(k, v). take (length p) k = p) (filter_map C)"
  have sub: "set ?t \<subseteq> set (filter_map C)" by (cases pfx) auto
  have m: "map_of (filter_map C) name = Some w" using assms(4) by (simp add: art_search_def)
  show "\<exists>head. filtmgr_list_filters s pfx = Inr (0, head) \<and> name \<notin> set head"
    using list_filters_names [OF assms(1,3), of pfx]
      inactive_not_listed [OF assms(2) m assms(5,6) sub]
    by blast
next
  assume c: "\<not> is_hot W \<and> \<not> bloomf_is_proxied api (filter_obj W)"
  have m: "(name, w) \<in> set (filter_map C)"
    using assms(4) by (auto simp: art_search_def dest: map_of_SomeD)
  have cw: "cold api s w" using c assms(5) by (simp add: cold_def)
  from art_iter_cold_cb [OF assms(3), of api "[]"] obtain head' s' where
    r: "art_iter (filter_map C) (filter_map_list_cold_cb api) ([], s) = Inr (0, head', s')"
    and em: "\<forall>e\<in>set (filter_map C). cold api s (snd e) \<longrightarrow> fst e \<in> set head'"
    by blast
  from em m cw have "name \<in> set head'" by force
  then show "\<exists>head s'. filtmgr_list_cold_filters api s = Inr (0, head, s') \<and> name \<in> set head"
    using r assms(1) by (simp add: filtmgr_list_cold_filters_def)
next
  show "filtmgr_list_cold_filters api (set_active g s) =
          map_sum id (\<lambda>(r, head, s'). (r, head, set_active g s')) (filtmgr_list_cold_filters api s)"
    by (rule list_cold_set_active)
qed

theorem inactive_wrapper_listing_witness:
  "versions demo_mgr (latest demo_mgr) = Some demo_v1
   \<and> art_search (filter_map demo_v1) ''bar'' = Some 11
   \<and> wrappers demo_mgr 11 = Some (demo_wrapper ''bar'' False False False)
   \<and> (\<exists>head. filtmgr_list_filters demo_mgr None = Inr (0, head) \<and> ''bar'' \<notin> set head)
   \<and> (\<exists>head s'. filtmgr_list_cold_filters demo_api demo_mgr = Inr (0, head, s') \<and> ''bar'' \<in> set head)"
  using inactive_wrapper_listing [of demo_mgr demo_v1 "''bar''" 11 "demo_wrapper ''bar'' False False False"
      None demo_api "\<lambda>w. True"]
  by (simp add: demo_mgr_def demo_v1_def demo_wrapper_def demo_api_def art_search_def)

subsection \<open>Failure of the index copy\<close>

lemma create_install_copy_fails:
  "versions s (latest s) = Some L \<Longrightarrow>
     create_install api p filt False s name cc = Inl Null_dereference"
  by (cases "init_bloom_filter api (case cc of Some c \<Rightarrow> c | None \<Rightarrow> config s) name True")
    (simp_all add: create_install_def create_new_version_def art_copy_def add_filter_def
      destroy_version_def)

lemma remove_install_copy_fails:
  "versions s (latest s) = Some L \<Longrightarrow> wrappers s filt = Some W \<Longrightarrow>
     remove_install p False del s name filt = Inl Null_dereference"
  by (simp add: remove_install_def create_new_version_def art_copy_def)

text \<open>
  C7 does not hold of the code. When \<open>art_copy\<close> fails, \<open>create_new_version\<close> returns
  NULL and no caller tests it: \<open>filtmgr_create_filter\<close> passes NULL to \<open>add_filter\<close>
  (which inserts into its index) or to \<open>destroy_version\<close>, and \<open>filtmgr_drop_filter\<close>
  and \<open>filtmgr_clear_filter\<close> delete from its index, after they have already changed
  the wrapper's flags. None of them returns -2; each dereferences NULL.
\<close>

theorem copy_failure_dereferences_null:
  "filtmgr_create_filter demo_api 2 13 False demo_mgr ''qux'' None = Some (Inl Null_dereference)
   \<and> filtmgr_create_filter demo_api 2 13 False demo_mgr ''broken'' None = Some (Inl Null_dereference)
   \<and> filtmgr_drop_filter 2 False demo_mgr ''foo'' = Inl Null_dereference"
proof -
  have v: "versions demo_mgr (latest demo_mgr) = Some demo_v1"
    by (simp add: demo_mgr_def)
  have ch: "is_chain (versions demo_mgr) (prev demo_v1) [0]"
    by (simp add: demo_mgr_def demo_v1_def demo_v0_def)
  have al: "\<forall>d\<in>set (parked (versions demo_mgr) [0]). wrappers demo_mgr d \<noteq> None"
    by (simp add: demo_mgr_def demo_v0_def deleted_of_def)
  have np: "\<not> (\<exists>d\<in>set (parked (versions demo_mgr) [0]). pending_name demo_api demo_mgr n d)"
    if "n \<noteq> ''baz''" for n
    using that by (simp add: demo_mgr_def demo_v0_def deleted_of_def pending_name_def
        demo_wrapper_def demo_api_def)
  have a: "art_search (filter_map demo_v1) ''qux'' = None"
      "art_search (filter_map demo_v1) ''broken'' = None"
    by (simp_all add: demo_v1_def art_search_def)
  have "filtmgr_create_filter demo_api 2 13 False demo_mgr ''qux'' None = Some (Inl Null_dereference)"
    using create_after_scan [OF v a(1) ch al, of demo_api 2 13 False None] np [of "''qux''"]
      create_install_copy_fails [OF v]
    by simp
  moreover
  have "filtmgr_create_filter demo_api 2 13 False demo_mgr ''broken'' None = Some (Inl Null_dereference)"
    using create_after_scan [OF v a(2) ch al, of demo_api 2 13 False None] np [of "''broken''"]
      create_install_copy_fails [OF v]
    by simp
  moreover
  have "take_filter demo_mgr (latest demo_mgr) ''foo'' = Inr (Some 10)"
    by (simp add: demo_mgr_def demo_v1_def demo_wrapper_def take_filter_def art_search_def)
  then have "filtmgr_drop_filter 2 False demo_mgr ''foo'' = Inl Null_dereference"
    using remove_install_copy_fails [OF v, of 10 "demo_wrapper ''foo'' True True False" 2 True "''foo''"]
    by (simp add: filtmgr_drop_filter_def demo_mgr_def)
  ultimately show ?thesis by simp
qed

subsection \<open>Chains\<close>

lemma is_chain_unique: "is_chain h p xs \<Longrightarrow> is_chain h p ys \<Longrightarrow> xs = ys"
proof (induction xs arbitrary: p ys)
  case Nil
  then show ?case by (cases ys) auto
next
  case (Cons x xs)
  then show ?case by (cases ys) (auto split: option.splits)
qed

lemma is_chain_suffix: "is_chain h p (xs @ v # ys) \<Longrightarrow> is_chain h (Some v) (v # ys)"
proof (induction xs arbitrary: p)
  case Nil
  then show ?case by simp
next
  case (Cons a xs)
  from Cons.prems obtain A where "h a = Some A" "is_chain h (prev A) (xs @ v # ys)"
    by (auto split: option.splits)
  then show ?case using Cons.IH by blast
qed

lemma is_chain_head_fresh:
  assumes "is_chain h p (v # vs)"
  shows "v \<notin> set vs"
proof
  assume "v \<in> set vs"
  then obtain xs ys where vs: "vs = xs @ v # ys" by (auto simp: in_set_conv_decomp)
  from assms have p: "p = Some v" by simp
  from assms vs have "is_chain h p ((v # xs) @ v # ys)" by simp
  then have "is_chain h (Some v) (v # ys)" by (rule is_chain_suffix)
  with assms p have "v # vs = v # ys"
    using is_chain_unique [of h "Some v" "v # vs" "v # ys"] by simp
  with vs show False by simp
qed

lemma is_chain_distinct: "is_chain h p vs \<Longrightarrow> distinct vs"
proof (induction vs arbitrary: p)
  case Nil
  then show ?case by simp
next
  case (Cons v vs)
  from Cons.prems have "v \<notin> set vs" by (rule is_chain_head_fresh)
  moreover from Cons.prems have "\<exists>q. is_chain h q vs" by (auto split: option.splits)
  ultimately show ?case using Cons.IH by auto
qed

lemma is_chain_allocated: "is_chain h p vs \<Longrightarrow> v \<in> set vs \<Longrightarrow> h v \<noteq> None"
  by (induction vs arbitrary: p) (auto split: option.splits)

lemma parked_mem:
  "d \<in> set (parked h vs) \<longleftrightarrow> (\<exists>v\<in>set vs. deleted_of h v = Some d)"
  by (induction vs) (auto split: option.splits)

lemma parked_filter_subset: "set (parked h (filter P vs)) \<subseteq> set (parked h vs)"
  by (auto simp: parked_mem)

subsection \<open>The sweep\<close>

lemma swept_Nil: "swept [] m s = s"
  by (simp add: swept_def swept_versions_def reclaim_calls_def)

lemma clean_this_keep:
  assumes "versions s1 v = Some V" and "\<not> vsn V < m"
  shows "clean_this v m rec s1 =
           Inr (False, if rec then s1\<lparr>versions := (versions s1)(v \<mapsto> V\<lparr>prev := None\<rparr>)\<rparr> else s1)"
  using assms by (simp add: clean_this_def Let_def not_less)

lemma clean_this_reclaim:
  assumes "versions s1 v = Some V" and "vsn V < m"
    and "case deleted V of None \<Rightarrow> True | Some d \<Rightarrow> wrappers s1 d \<noteq> None"
  shows "clean_this v m rec s1 =
           Inr (True, s1\<lparr>versions := (versions s1)(v := None),
                         wrappers := (case deleted V of None \<Rightarrow> wrappers s1
                                      | Some d \<Rightarrow> (wrappers s1)(d := None)),
                         reclaimed := (case deleted V of None \<Rightarrow> []
                                       | Some d \<Rightarrow> reclaim_calls s1 [d]) @ reclaimed s1\<rparr>)"
proof (cases "deleted V")
  case None
  then show ?thesis
    using assms by (cases rec) (simp_all add: clean_this_def Let_def destroy_version_def)
next
  case (Some d)
  with assms(3) obtain W where "wrappers s1 d = Some W" by auto
  then show ?thesis
    using assms Some
    by (cases rec) (simp_all add: clean_this_def Let_def destroy_version_def delete_filter_def
          reclaim_calls_def reclaim_call_of_def)
qed

lemma clean_old_versions_chain:
  assumes "is_chain (versions s) (Some v) ch"
    and "distinct (parked (versions s) ch)"
    and "\<forall>d\<in>set (parked (versions s) ch). wrappers s d \<noteq> None"
  shows "clean_old_versions v m s = Some (Inr (doomed (versions s) m v, swept ch m s))"
  using assms
proof (induction ch arbitrary: v)
  case Nil
  then show ?case by simp
next
  case (Cons u vs)
  let ?h = "versions s"
  from Cons.prems(1) obtain V where uv: "u = v" and V: "?h v = Some V"
    and ch: "is_chain ?h (prev V) vs"
    by (auto split: option.splits)
  have fresh: "v \<notin> set vs" using Cons.prems(1) uv is_chain_head_fresh by blast
  have pk: "parked ?h (v # vs) = (case deleted V of None \<Rightarrow> [] | Some d \<Rightarrow> [d]) @ parked ?h vs"
    using V by (simp add: deleted_of_def split: option.splits)
  have dist: "distinct (parked ?h vs)" and alloc: "\<forall>d\<in>set (parked ?h vs). wrappers s d \<noteq> None"
    using Cons.prems(2,3) uv pk by (auto split: option.splits)
  define rec where "rec = (case prev V of None \<Rightarrow> False | Some p \<Rightarrow> doomed ?h m p)"
  have inner: "(case prev V of None \<Rightarrow> Some (Inr (False, s))
                | Some p \<Rightarrow> clean_old_versions p m s) = Some (Inr (rec, swept vs m s))"
  proof (cases "prev V")
    case None
    with ch have "vs = []" by (cases vs) auto
    then show ?thesis using None by (simp add: rec_def swept_Nil)
  next
    case (Some p)
    then show ?thesis using Cons.IH [OF _ dist alloc, of p] ch by (simp add: rec_def)
  qed
  have unfold: "clean_old_versions v m s = Some (clean_this v m rec (swept vs m s))"
    using V inner by (subst clean_old_versions.simps) simp
  have V1: "versions (swept vs m s) v = Some V"
    using fresh V by (simp add: swept_def swept_versions_def)
  let ?V' = "V\<lparr>prev := (case prev V of None \<Rightarrow> None
                         | Some p \<Rightarrow> if doomed ?h m p then None else Some p)\<rparr>"
  have V': "(if rec then V\<lparr>prev := None\<rparr> else V) = ?V'"
    by (cases "prev V") (auto simp: rec_def)
  define s1 where "s1 = swept vs m s"
  have sel: "versions s1 = swept_versions vs m ?h"
      "wrappers s1 = (\<lambda>w. if w \<in> set (parked ?h (filter (doomed ?h m) vs)) then None else wrappers s w)"
      "reclaimed s1 = reclaim_calls s (parked ?h (filter (doomed ?h m) vs)) @ reclaimed s"
    by (simp_all add: s1_def swept_def)
  show ?case
  proof (cases "vsn V < m")
    case False
    have nd: "\<not> doomed ?h m v" using V False by (simp add: doomed_def vsn_of_def)
    have e1: "(versions s1)(v \<mapsto> ?V') = swept_versions (v # vs) m ?h"
      using V False by (auto simp: sel swept_versions_def fun_eq_iff)
    have "clean_this v m rec s1 = Inr (False, s1\<lparr>versions := (versions s1)(v \<mapsto> ?V')\<rparr>)"
      using clean_this_keep [OF V1 False, of rec] V' V1
      by (cases rec) (auto simp: fun_upd_idem s1_def)
    moreover have "s1\<lparr>versions := (versions s1)(v \<mapsto> ?V')\<rparr> = swept (v # vs) m s"
      unfolding e1 using nd by (simp add: s1_def swept_def)
    ultimately show ?thesis using unfold uv nd by (simp add: s1_def)
  next
    case True
    have d: "doomed ?h m v" using V True by (simp add: doomed_def vsn_of_def)
    have pkd: "parked ?h (filter (doomed ?h m) (v # vs)) =
                 (case deleted V of None \<Rightarrow> [] | Some d \<Rightarrow> [d]) @ parked ?h (filter (doomed ?h m) vs)"
      using d V by (simp add: deleted_of_def split: option.splits)
    have w1: "wrappers s1 w = wrappers s w" if "w \<notin> set (parked ?h vs)" for w
      using that parked_filter_subset [of ?h "doomed ?h m" vs] by (auto simp: sel)
    have al: "case deleted V of None \<Rightarrow> True | Some d \<Rightarrow> wrappers s1 d \<noteq> None"
    proof (cases "deleted V")
      case None
      then show ?thesis by simp
    next
      case (Some d)
      then have "d \<notin> set (parked ?h vs)" "wrappers s d \<noteq> None"
        using Cons.prems(2,3) uv pk by auto
      then show ?thesis using Some w1 by simp
    qed
    have rc: "reclaim_calls s1 [d] = reclaim_calls s [d]" if "deleted V = Some d" for d
    proof -
      from that have "d \<notin> set (parked ?h vs)" using Cons.prems(2) uv pk by auto
      then show ?thesis using w1 by (simp add: reclaim_calls_def)
    qed
    have e1: "(versions s1)(v := None) = swept_versions (v # vs) m ?h"
      using V True by (auto simp: sel swept_versions_def fun_eq_iff)
    have e2: "(case deleted V of None \<Rightarrow> wrappers s1 | Some d \<Rightarrow> (wrappers s1)(d := None)) =
              (\<lambda>w. if w \<in> set (parked ?h (filter (doomed ?h m) (v # vs))) then None else wrappers s w)"
      unfolding pkd by (cases "deleted V") (auto simp: sel fun_eq_iff)
    have e3: "(case deleted V of None \<Rightarrow> [] | Some d \<Rightarrow> reclaim_calls s1 [d]) @ reclaimed s1 =
              reclaim_calls s (parked ?h (filter (doomed ?h m) (v # vs))) @ reclaimed s"
      unfolding pkd using rc by (cases "deleted V") (auto simp: sel reclaim_calls_def)
    have "clean_this v m rec s1 = Inr (True, swept (v # vs) m s)"
      unfolding clean_this_reclaim [OF V1 [folded s1_def] True al] e1 e2 e3
      by (simp add: s1_def swept_def)
    then show ?thesis using unfold uv d by (simp add: s1_def)
  qed
qed

lemma is_chain_last:
  "is_chain h p vs \<Longrightarrow> vs \<noteq> [] \<Longrightarrow> \<exists>V. h (last vs) = Some V \<and> prev V = None"
proof (induction vs arbitrary: p)
  case Nil
  then show ?case by simp
next
  case (Cons v vs)
  from Cons.prems(1) obtain V where V: "h v = Some V" and ch: "is_chain h (prev V) vs"
    by (auto split: option.splits)
  show ?case
  proof (cases "vs = []")
    case True
    with ch V show ?thesis by simp
  next
    case False
    with Cons.IH [OF ch] show ?thesis by simp
  qed
qed

lemma swept_versions_chain:
  assumes "is_chain h p vs" and "set vs \<subseteq> set ch"
  shows "is_chain (swept_versions ch m h)
           (case p of None \<Rightarrow> None | Some v \<Rightarrow> if doomed h m v then None else Some v)
           (takeWhile (\<lambda>v. \<not> doomed h m v) vs)"
  using assms
proof (induction vs arbitrary: p)
  case Nil
  then show ?case by simp
next
  case (Cons v vs)
  from Cons.prems(1) obtain V where p: "p = Some v" and V: "h v = Some V"
    and ch: "is_chain h (prev V) vs"
    by (auto split: option.splits)
  from Cons.prems(2) have sub: "set vs \<subseteq> set ch" and mem: "v \<in> set ch" by auto
  show ?case
  proof (cases "doomed h m v")
    case True
    then show ?thesis using p by simp
  next
    case False
    then have nv: "\<not> vsn V < m" using V by (simp add: doomed_def vsn_of_def)
    have "swept_versions ch m h v =
            Some (V\<lparr>prev := (case prev V of None \<Rightarrow> None
                              | Some p \<Rightarrow> if doomed h m p then None else Some p)\<rparr>)"
      using mem V nv by (simp add: swept_versions_def)
    then show ?thesis using False p Cons.IH [OF ch sub] by simp
  qed
qed

lemma sorted_filter_takeWhile:
  "sorted_wrt (>) (map f vs) \<Longrightarrow>
     filter (\<lambda>v. \<not> f v < (m :: 64 word)) vs = takeWhile (\<lambda>v. \<not> f v < m) vs"
proof (induction vs)
  case Nil
  then show ?case by simp
next
  case (Cons v vs)
  show ?case
  proof (cases "f v < m")
    case True
    with Cons.prems have "\<forall>u\<in>set vs. f u < m" by auto
    then have "filter (\<lambda>v. \<not> f v < m) vs = []" by (simp add: filter_empty_conv)
    with True show ?thesis by simp
  next
    case False
    with Cons show ?thesis by simp
  qed
qed

lemma swept_versions_doomed:
  "is_chain h p ch \<Longrightarrow> v \<in> set ch \<Longrightarrow> (swept_versions ch m h v = None) = doomed h m v"
  using is_chain_allocated [of h p ch v]
  by (auto simp: swept_versions_def doomed_def vsn_of_def split: option.splits)

lemma swept_versions_kept:
  "h v = Some V \<Longrightarrow> \<not> doomed h m v \<Longrightarrow> v \<in> set ch \<Longrightarrow>
     \<exists>V'. swept_versions ch m h v = Some V' \<and> vsn V' = vsn V
        \<and> filter_map V' = filter_map V \<and> deleted V' = deleted V"
  by (simp add: swept_versions_def doomed_def vsn_of_def)

text \<open>
  C1. Let \<open>ch\<close> be the version chain from \<open>l\<close> (newest first, ending at NULL) with
  version numbers strictly increasing from tail to \<open>l\<close>, each parked wrapper allocated
  and parked once. Then \<open>clean_old_versions l m\<close> returns, with \<open>destroyed\<close> exactly
  when \<open>l\<close> is below \<open>m\<close>, in a state where: a version of the chain is freed exactly
  when its number is below \<open>m\<close>, and nothing outside the chain changes; the versions
  that stay form the chain from \<open>l\<close> and keep number, index and parked wrapper, and
  the oldest of them has no \<open>prev\<close>; the wrappers parked on the freed versions are
  freed, each after \<open>bloomf_delete\<close> if its \<open>should_delete\<close> is set and after
  \<open>bloomf_close\<close> otherwise; so \<open>l\<close> stays whenever \<open>m\<close> is not above its number. In
  particular \<open>filtmgr_vacuum\<close>, which passes the number of the latest version, frees
  every older version and leaves the latest with no \<open>prev\<close>.
\<close>

theorem clean_old_versions_exact:
  assumes "is_chain (versions s) (Some l) ch"
    and "sorted_wrt (>) (map (vsn_of (versions s)) ch)"
    and "distinct (parked (versions s) ch)"
    and "\<forall>d\<in>set (parked (versions s) ch). wrappers s d \<noteq> None"
  shows "(\<exists>s'. clean_old_versions l m s = Some (Inr (vsn_of (versions s) l < m, s'))
           \<and> (\<forall>v\<in>set ch. (versions s' v = None) = (vsn_of (versions s) v < m))
           \<and> (\<forall>v. v \<notin> set ch \<longrightarrow> versions s' v = versions s v)
           \<and> is_chain (versions s') (if vsn_of (versions s) l < m then None else Some l)
                (filter (\<lambda>v. \<not> vsn_of (versions s) v < m) ch)
           \<and> (\<forall>v\<in>set ch. \<not> vsn_of (versions s) v < m \<longrightarrow>
                 map_option vsn (versions s' v) = map_option vsn (versions s v)
                 \<and> map_option filter_map (versions s' v) = map_option filter_map (versions s v)
                 \<and> map_option deleted (versions s' v) = map_option deleted (versions s v))
           \<and> (filter (\<lambda>v. \<not> vsn_of (versions s) v < m) ch \<noteq> [] \<longrightarrow>
                 map_option prev (versions s' (last (filter (\<lambda>v. \<not> vsn_of (versions s) v < m) ch)))
                   = Some None)
           \<and> wrappers s' =
                (\<lambda>w. if w \<in> set (parked (versions s) (filter (\<lambda>v. vsn_of (versions s) v < m) ch))
                      then None else wrappers s w)
           \<and> reclaimed s' =
                reclaim_calls s (parked (versions s) (filter (\<lambda>v. vsn_of (versions s) v < m) ch))
                  @ reclaimed s
           \<and> config s' = config s \<and> latest s' = latest s \<and> clients s' = clients s
           \<and> (m \<le> vsn_of (versions s) l \<longrightarrow> versions s' l \<noteq> None))
       \<and> (latest s = l \<longrightarrow>
            (\<exists>s'. filtmgr_vacuum s = Some (Inr s')
               \<and> (\<forall>v\<in>set ch. v \<noteq> l \<longrightarrow> versions s' v = None)
               \<and> map_option prev (versions s' l) = Some None
               \<and> is_chain (versions s') (Some l) [l]))"
proof -
  let ?h = "versions s"
  let ?keep = "\<lambda>v. \<not> vsn_of ?h v < m"
  have dm: "doomed ?h k = (\<lambda>v. vsn_of ?h v < k)" for k by (simp add: doomed_def fun_eq_iff)
  have run: "clean_old_versions l k s = Some (Inr (vsn_of ?h l < k, swept ch k s))" for k
    using clean_old_versions_chain [OF assms(1,3,4), of k] by (simp add: doomed_def)
  have fk: "filter (\<lambda>v. \<not> vsn_of ?h v < k) ch = takeWhile (\<lambda>v. \<not> vsn_of ?h v < k) ch" for k
    using assms(2) by (rule sorted_filter_takeWhile)
  have chain: "is_chain (versions (swept ch k s)) (if vsn_of ?h l < k then None else Some l)
                 (filter (\<lambda>v. \<not> vsn_of ?h v < k) ch)" for k
    using swept_versions_chain [OF assms(1) subset_refl, of k]
    by (simp add: fk swept_def dm)
  obtain L where l: "ch = l # tl ch" and L: "?h l = Some L"
    using assms(1) by (cases ch) (auto split: option.splits)
  have first: "\<exists>s'. clean_old_versions l m s = Some (Inr (vsn_of ?h l < m, s'))
           \<and> (\<forall>v\<in>set ch. (versions s' v = None) = (vsn_of ?h v < m))
           \<and> (\<forall>v. v \<notin> set ch \<longrightarrow> versions s' v = ?h v)
           \<and> is_chain (versions s') (if vsn_of ?h l < m then None else Some l) (filter ?keep ch)
           \<and> (\<forall>v\<in>set ch. ?keep v \<longrightarrow>
                 map_option vsn (versions s' v) = map_option vsn (?h v)
                 \<and> map_option filter_map (versions s' v) = map_option filter_map (?h v)
                 \<and> map_option deleted (versions s' v) = map_option deleted (?h v))
           \<and> (filter ?keep ch \<noteq> [] \<longrightarrow>
                 map_option prev (versions s' (last (filter ?keep ch))) = Some None)
           \<and> wrappers s' =
                (\<lambda>w. if w \<in> set (parked ?h (filter (\<lambda>v. vsn_of ?h v < m) ch))
                      then None else wrappers s w)
           \<and> reclaimed s' =
                reclaim_calls s (parked ?h (filter (\<lambda>v. vsn_of ?h v < m) ch)) @ reclaimed s
           \<and> config s' = config s \<and> latest s' = latest s \<and> clients s' = clients s
           \<and> (m \<le> vsn_of ?h l \<longrightarrow> versions s' l \<noteq> None)"
  proof (intro exI [of _ "swept ch m s"] conjI ballI allI impI)
    show "clean_old_versions l m s = Some (Inr (vsn_of ?h l < m, swept ch m s))" by (rule run)
  next
    fix v assume "v \<in> set ch"
    then show "(versions (swept ch m s) v = None) = (vsn_of ?h v < m)"
      using swept_versions_doomed [OF assms(1), of v m] by (simp add: swept_def doomed_def)
  next
    fix v assume "v \<notin> set ch"
    then show "versions (swept ch m s) v = ?h v" by (simp add: swept_def swept_versions_def)
  next
    show "is_chain (versions (swept ch m s)) (if vsn_of ?h l < m then None else Some l) (filter ?keep ch)"
      by (rule chain)
  next
    fix v assume v: "v \<in> set ch" and k: "?keep v"
    from is_chain_allocated [OF assms(1) v] obtain V where V: "?h v = Some V" by auto
    from k have "\<not> doomed ?h m v" by (simp add: doomed_def)
    from swept_versions_kept [OF V this v]
    obtain V' where "versions (swept ch m s) v = Some V'" "vsn V' = vsn V"
      "filter_map V' = filter_map V" "deleted V' = deleted V"
      by (auto simp: swept_def doomed_def)
    with V show "map_option vsn (versions (swept ch m s) v) = map_option vsn (?h v)"
      "map_option filter_map (versions (swept ch m s) v) = map_option filter_map (?h v)"
      "map_option deleted (versions (swept ch m s) v) = map_option deleted (?h v)"
      by simp_all
  next
    assume "filter ?keep ch \<noteq> []"
    from is_chain_last [OF chain this]
    show "map_option prev (versions (swept ch m s) (last (filter ?keep ch))) = Some None"
      by auto
  next
    show "wrappers (swept ch m s) =
            (\<lambda>w. if w \<in> set (parked ?h (filter (\<lambda>v. vsn_of ?h v < m) ch)) then None else wrappers s w)"
      by (simp add: swept_def dm)
  next
    show "reclaimed (swept ch m s) =
            reclaim_calls s (parked ?h (filter (\<lambda>v. vsn_of ?h v < m) ch)) @ reclaimed s"
      by (simp add: swept_def dm)
  next
    show "config (swept ch m s) = config s" "latest (swept ch m s) = latest s"
      "clients (swept ch m s) = clients s"
      by (simp_all add: swept_def)
  next
    assume "m \<le> vsn_of ?h l"
    then have "\<not> vsn_of ?h l < m" by simp
    moreover have "l \<in> set ch" using l by (metis list.set_intros(1))
    ultimately show "versions (swept ch m s) l \<noteq> None"
      using swept_versions_doomed [OF assms(1), of l m] by (simp add: swept_def doomed_def)
  qed
  have second: "\<exists>s'. filtmgr_vacuum s = Some (Inr s')
               \<and> (\<forall>v\<in>set ch. v \<noteq> l \<longrightarrow> versions s' v = None)
               \<and> map_option prev (versions s' l) = Some None
               \<and> is_chain (versions s') (Some l) [l]" if ll: "latest s = l"
  proof -
    let ?m = "vsn L"
    have vl: "vsn_of ?h l = ?m" using L by (simp add: vsn_of_def)
    have older: "vsn_of ?h v < ?m" if "v \<in> set (tl ch)" for v
      using assms(2) l that vl by (metis (no_types, lifting) list.simps(9) sorted_wrt.simps(2) imageI list.set_map)
    have keep: "filter (\<lambda>v. \<not> vsn_of ?h v < ?m) ch = [l]"
    proof -
      have "filter (\<lambda>v. \<not> vsn_of ?h v < ?m) (tl ch) = []"
        using older by (simp add: filter_empty_conv)
      then have "filter (\<lambda>v. \<not> vsn_of ?h v < ?m) (l # tl ch) = [l]" using vl by simp
      then show ?thesis using l by simp
    qed
    have c: "is_chain (versions (swept ch ?m s)) (Some l) [l]"
      using chain [of ?m] keep vl by simp
    have "filtmgr_vacuum s = Some (Inr (swept ch ?m s))"
      using ll L run [of ?m] by (simp add: filtmgr_vacuum_def)
    moreover have "\<forall>v\<in>set ch. v \<noteq> l \<longrightarrow> versions (swept ch ?m s) v = None"
    proof (intro ballI impI)
      fix v assume v: "v \<in> set ch" and "v \<noteq> l"
      then have "v \<in> set (tl ch)" using l by (metis set_ConsD)
      from older [OF this] show "versions (swept ch ?m s) v = None"
        using swept_versions_doomed [OF assms(1) v, of ?m] by (simp add: swept_def doomed_def)
    qed
    moreover have "map_option prev (versions (swept ch ?m s) l) = Some None"
      using c by (auto split: option.splits)
    ultimately show ?thesis using c by blast
  qed
  show ?thesis using first second by blast
qed

theorem clean_old_versions_exact_witness:
  "is_chain (versions demo_mgr) (Some 1) [1, 0]
   \<and> sorted_wrt (>) (map (vsn_of (versions demo_mgr)) [1, 0])
   \<and> parked (versions demo_mgr) [1, 0] = [12]
   \<and> (\<exists>s'. clean_old_versions 1 1 demo_mgr = Some (Inr (False, s'))
          \<and> versions s' 0 = None
          \<and> wrappers s' 12 = None
          \<and> reclaimed s' = [Bloomf_delete \<lparr>df_name = ''baz'', df_keys = [], df_proxied = False\<rparr>])
   \<and> (\<exists>s'. filtmgr_vacuum demo_mgr = Some (Inr s')
          \<and> versions s' 0 = None
          \<and> map_option prev (versions s' 1) = Some None)"
proof -
  have h: "is_chain (versions demo_mgr) (Some 1) [1, 0]"
      "sorted_wrt (>) (map (vsn_of (versions demo_mgr)) [1, 0])"
      "distinct (parked (versions demo_mgr) [1, 0])"
      "\<forall>d\<in>set (parked (versions demo_mgr) [1, 0]). wrappers demo_mgr d \<noteq> None"
    and p: "parked (versions demo_mgr) [1, 0] = [12]"
    and l: "latest demo_mgr = 1"
    by (simp_all add: demo_mgr_def demo_v1_def demo_v0_def vsn_of_def deleted_of_def)
  have v: "vsn_of (versions demo_mgr) 1 = 1" "vsn_of (versions demo_mgr) 0 = 0"
    and w: "wrappers demo_mgr 12 = Some (demo_wrapper ''baz'' False False True)"
    and r: "reclaimed demo_mgr = []"
    by (simp_all add: demo_mgr_def demo_v1_def demo_v0_def vsn_of_def)
  from clean_old_versions_exact [OF h, of 1] obtain s1 s2 where
    c: "clean_old_versions 1 1 demo_mgr = Some (Inr (vsn_of (versions demo_mgr) 1 < 1, s1))"
    and d: "\<forall>v\<in>set [1, 0]. (versions s1 v = None) = (vsn_of (versions demo_mgr) v < 1)"
    and ws: "wrappers s1 =
                (\<lambda>w. if w \<in> set (parked (versions demo_mgr)
                                   (filter (\<lambda>v. vsn_of (versions demo_mgr) v < 1) [1, 0]))
                      then None else wrappers demo_mgr w)"
    and rs: "reclaimed s1 =
                reclaim_calls demo_mgr (parked (versions demo_mgr)
                    (filter (\<lambda>v. vsn_of (versions demo_mgr) v < 1) [1, 0]))
                  @ reclaimed demo_mgr"
    and vac: "filtmgr_vacuum demo_mgr = Some (Inr s2)"
      "\<forall>v\<in>set [1, 0]. v \<noteq> 1 \<longrightarrow> versions s2 v = None"
      "map_option prev (versions s2 1) = Some None"
    using l by blast
  have pd: "parked (versions demo_mgr) [0] = [12]"
    by (simp add: demo_mgr_def demo_v0_def deleted_of_def)
  have "versions s1 0 = None" using d v by simp
  moreover have "wrappers s1 12 = None" using ws v pd by simp
  moreover have "reclaimed s1 = [Bloomf_delete \<lparr>df_name = ''baz'', df_keys = [], df_proxied = False\<rparr>]"
    using rs v pd w r by (simp add: reclaim_calls_def reclaim_call_of_def demo_wrapper_def)
  moreover have "versions s2 0 = None" using vac(2) by simp
  ultimately show ?thesis using h(1,2) p c v vac(1,3) by auto
qed

subsection \<open>The hot flag\<close>

lemma clean_this_wrappers:
  "clean_this v m rec s1 = Inr (b, s2) \<Longrightarrow> wrappers s2 w = Some W \<Longrightarrow> wrappers s1 w = Some W"
  by (auto simp: clean_this_def delete_filter_def destroy_version_def Let_def
        split: option.splits if_splits sum.splits)

lemma bind_pair_Inr:
  assumes "Option.bind x (\<lambda>r. case r of Inl e \<Rightarrow> Some (Inl e) | Inr (a, b) \<Rightarrow> Some (g a b)) = Some (Inr z)"
  shows "\<exists>a b. x = Some (Inr (a, b)) \<and> g a b = Inr z"
proof (cases x)
  case None
  with assms show ?thesis by simp
next
  case (Some y)
  with assms show ?thesis by (cases y) auto
qed

lemma scan_bind_Inr:
  assumes "Option.bind x (\<lambda>r. case r of Inl e \<Rightarrow> Some (Inl e) | Inr True \<Rightarrow> Some t
                               | Inr False \<Rightarrow> Some f) = Some (Inr z)"
  shows "\<exists>b. x = Some (Inr b) \<and> (if b then t else f) = Inr z"
proof (cases x)
  case None
  with assms show ?thesis by simp
next
  case (Some y)
  with assms show ?thesis by (cases y) (auto split: bool.splits)
qed

lemma vacuum_calls_clean:
  "filtmgr_vacuum s = Some (Inr s') \<Longrightarrow>
     \<exists>L b. versions s (latest s) = Some L \<and> clean_old_versions (latest s) (vsn L) s = Some (Inr (b, s'))"
  by (auto simp: filtmgr_vacuum_def split: option.splits dest!: bind_pair_Inr)

lemma vacuum_pass_calls_clean:
  "vacuum_pass s = Some (Inr s') \<Longrightarrow>
     \<exists>C. versions s (latest s) = Some C \<and>
       ((prev C = None \<and> s' = s) \<or>
        (prev C \<noteq> None \<and> (\<exists>b. clean_old_versions (latest s) (min_client_vsn (clients s) (vsn C)) s
                      = Some (Inr (b, s')))))"
  by (auto simp: vacuum_pass_def split: option.splits if_splits dest!: bind_pair_Inr)

lemma clean_old_versions_wrappers:
  assumes "clean_old_versions v m s = Some y"
  shows "\<forall>b s'. y = Inr (b, s') \<longrightarrow> (\<forall>w W. wrappers s' w = Some W \<longrightarrow> wrappers s w = Some W)"
  using assms
proof (induction rule: clean_old_versions.raw_induct [rotated, consumes 1])
  case (1 clean v m s y)
  show ?case
  proof (intro allI impI)
    fix b s' w W assume y: "y = Inr (b, s')" and w: "wrappers s' w = Some W"
    from 1(2) y obtain V where V: "versions s v = Some V"
      by (auto split: option.splits)
    from 1(2) y V have "Option.bind
            (case prev V of None \<Rightarrow> Some (Inr (False, s)) | Some p \<Rightarrow> clean p m s)
            (\<lambda>r. case r of Inl e \<Rightarrow> Some (Inl e)
                  | Inr (rec, s1) \<Rightarrow> Some (clean_this v m rec s1)) = Some (Inr (b, s'))"
      by simp
    from bind_pair_Inr [OF this] obtain rec s1 where
      r: "(case prev V of None \<Rightarrow> Some (Inr (False, s)) | Some p \<Rightarrow> clean p m s) = Some (Inr (rec, s1))"
      and t: "clean_this v m rec s1 = Inr (b, s')"
      by blast
    from clean_this_wrappers [OF t w] have w1: "wrappers s1 w = Some W" .
    show "wrappers s w = Some W"
    proof (cases "prev V")
      case None
      with r w1 show ?thesis by simp
    next
      case (Some p)
      with r have "clean p m s = Some (Inr (rec, s1))" by simp
      from 1(1) [OF this] w1 show ?thesis by blast
    qed
  qed
qed

lemma art_iter_cold_cooler:
  "art_iter t (filter_map_list_cold_cb api) (head, s) = Inr (r, head', s') \<Longrightarrow>
     cooler (wrappers s w) (wrappers s' w)"
proof (induction t arbitrary: head s)
  case Nil
  then show ?case by (auto simp: cooler_def split: option.splits)
next
  case (Cons e t)
  obtain k u where e: "e = (k, u)" by (cases e)
  from Cons.prems e obtain r1 head1 s1 where
    cb: "filter_map_list_cold_cb api (head, s) k u = Inr (r1, head1, s1)"
    by (cases "filter_map_list_cold_cb api (head, s) k u") (auto split: prod.splits)
  then have r1: "r1 = 0"
    by (auto simp: filter_map_list_cold_cb_def split: option.splits if_splits)
  from cb have c1: "cooler (wrappers s w) (wrappers s1 w)"
    by (auto simp: filter_map_list_cold_cb_def cooler_def split: option.splits if_splits)
  from Cons.prems e cb r1 have "art_iter t (filter_map_list_cold_cb api) (head1, s1) = Inr (r, head', s')"
    by simp
  from Cons.IH [OF this] have c2: "cooler (wrappers s1 w) (wrappers s' w)" .
  from c1 c2 show ?case by (auto simp: cooler_def split: option.splits)
qed

lemma list_cold_cooler:
  "filtmgr_list_cold_filters api s = Inr (r, head, s') \<Longrightarrow> cooler (wrappers s w) (wrappers s' w)"
  by (auto simp: filtmgr_list_cold_filters_def split: option.splits sum.splits
        dest: art_iter_cold_cooler)

lemma keys_op_hot:
  assumes "keys_op call s name keys n result = Inr (r, res, s')"
    and "wrappers s w = Some W" and "wrappers s' w = Some W'" and "is_hot W' \<noteq> is_hot W"
  shows "is_hot W' \<and> take_filter s (latest s) name = Inr (Some w)"
proof (cases "take_filter s (latest s) name")
  case (Inl e)
  with assms show ?thesis by (simp add: keys_op_def)
next
  case (Inr t)
  show ?thesis
  proof (cases t)
    case None
    with Inr assms show ?thesis by (simp add: keys_op_def)
  next
    case (Some filt)
    with Inr assms show ?thesis
      by (cases "w = filt") (auto simp: keys_op_def split: option.splits sum.splits)
  qed
qed

lemma keys_op_alloc:
  "keys_op call s name keys n result = Inr (r, res, s') \<Longrightarrow> wrappers s w = None \<Longrightarrow> wrappers s' w = None"
  by (auto simp: keys_op_def take_filter_def split: option.splits sum.splits if_splits)

lemma create_wrappers:
  assumes "filtmgr_create_filter api p filt copy_ok s name cc = Some (Inr (r, s'))"
  shows "wrappers s' = wrappers s \<or>
         (\<exists>W. wrappers s' = (wrappers s)(filt \<mapsto> W) \<and> is_hot W)"
proof -
  from assms obtain L where L: "versions s (latest s) = Some L"
    by (auto simp: filtmgr_create_filter_def split: option.splits)
  show ?thesis
  proof (cases "art_search (filter_map L) name")
    case (Some a)
    with assms L show ?thesis by (simp add: filtmgr_create_filter_def)
  next
    case None
    from assms L None have "Option.bind (pending_delete_scan api s (prev L) name)
        (\<lambda>r. case r of Inl e \<Rightarrow> Some (Inl e) | Inr True \<Rightarrow> Some (Inr (- 3, s))
              | Inr False \<Rightarrow> Some (create_install api p filt copy_ok s name cc)) = Some (Inr (r, s'))"
      by (simp add: filtmgr_create_filter_def)
    from scan_bind_Inr [OF this] obtain b where
      sc: "pending_delete_scan api s (prev L) name = Some (Inr b)"
      and res: "(if b then Inr (- 3, s) else create_install api p filt copy_ok s name cc) = Inr (r, s')"
      by blast
    show ?thesis
    proof (cases b)
      case True
      with res show ?thesis by simp
    next
      case False
      with res have "create_install api p filt copy_ok s name cc = Inr (r, s')" by simp
      then show ?thesis
        by (auto simp: create_install_def create_new_version_def add_filter_def destroy_version_def
              art_copy_def Let_def split: option.splits sum.splits if_splits prod.splits)
    qed
  qed
qed

lemma remove_install_hot:
  "remove_install p copy_ok del s name filt = Inr (r, s') \<Longrightarrow>
     map_option is_hot (wrappers s' w) = map_option is_hot (wrappers s w)"
  by (auto simp: remove_install_def create_new_version_def art_copy_def Let_def
        split: option.splits sum.splits if_splits prod.splits)

lemma call_changes_hot:
  assumes "state_after api c s = Some (Inr s')"
    and "alloc_ok c s"
    and "wrappers s' w = Some W'"
  shows "(\<forall>W. wrappers s w = Some W \<and> is_hot W' \<noteq> is_hot W \<longrightarrow>
            (is_hot W' \<and> (\<exists>name keys n result.
                 (c = Check_keys name keys n result \<or> c = Set_keys name keys n result)
                 \<and> take_filter s (latest s) name = Inr (Some w)))
            \<or> (\<not> is_hot W' \<and> c = List_cold))
       \<and> (wrappers s w = None \<longrightarrow>
            is_hot W' \<and> (\<exists>p copy_ok name cc. c = Create p w copy_ok name cc))"
proof (cases c)
  case (Checkpoint tid)
  with assms show ?thesis
    by (auto simp: filtmgr_client_checkpoint_def split: option.splits)
next
  case (Leave tid)
  with assms show ?thesis by (auto simp: filtmgr_client_leave_def)
next
  case (Flush name)
  with assms show ?thesis
    by (auto simp: filtmgr_flush_filter_def take_filter_def split: option.splits sum.splits if_splits)
next
  case (Check_keys name keys n result)
  with assms(1) obtain r res where
    k: "keys_op (bloomf_contains api) s name keys n result = Inr (r, res, s')"
    by (cases "filtmgr_check_keys api s name keys n result")
      (auto simp: filtmgr_check_keys_def split: prod.splits)
  show ?thesis
    using keys_op_hot [OF k _ assms(3)] keys_op_alloc [OF k, of w] assms(3) Check_keys by auto
next
  case (Set_keys name keys n result)
  with assms(1) obtain r res where
    k: "keys_op (bloomf_add api) s name keys n result = Inr (r, res, s')"
    by (cases "filtmgr_set_keys api s name keys n result")
      (auto simp: filtmgr_set_keys_def split: prod.splits)
  show ?thesis
    using keys_op_hot [OF k _ assms(3)] keys_op_alloc [OF k, of w] assms(3) Set_keys by auto
next
  case (Create p filt copy_ok name cc)
  with assms(1) obtain r where
    cr: "filtmgr_create_filter api p filt copy_ok s name cc = Some (Inr (r, s'))"
    by (cases "filtmgr_create_filter api p filt copy_ok s name cc")
      (auto simp: map_sum_def split: sum.splits)
  from assms(2) Create have fr: "wrappers s filt = None" by simp
  from create_wrappers [OF cr] show ?thesis
    using assms(3) fr Create by (cases "w = filt") auto
next
  case (Drop p copy_ok name)
  with assms(1) obtain r where d: "filtmgr_drop_filter p copy_ok s name = Inr (r, s')"
    by (cases "filtmgr_drop_filter p copy_ok s name") auto
  have "map_option is_hot (wrappers s' w) = map_option is_hot (wrappers s w)"
    using d remove_install_hot
    by (auto simp: filtmgr_drop_filter_def split: sum.splits option.splits)
  with assms(3) show ?thesis by auto
next
  case (Unmap name)
  with assms show ?thesis
    by (auto simp: filtmgr_unmap_filter_def take_filter_def split: option.splits sum.splits if_splits)
next
  case (Clear p copy_ok name)
  with assms(1) obtain r where d: "filtmgr_clear_filter api p copy_ok s name = Inr (r, s')"
    by (cases "filtmgr_clear_filter api p copy_ok s name") auto
  have "map_option is_hot (wrappers s' w) = map_option is_hot (wrappers s w)"
    using d remove_install_hot
    by (auto simp: filtmgr_clear_filter_def split: sum.splits option.splits if_splits)
  with assms(3) show ?thesis by auto
next
  case (List_filters pfx)
  with assms show ?thesis by (auto simp: map_sum_def split: sum.splits)
next
  case List_cold
  with assms(1) obtain r head where "filtmgr_list_cold_filters api s = Inr (r, head, s')"
    by (cases "filtmgr_list_cold_filters api s") (auto split: prod.splits)
  from list_cold_cooler [OF this, of w] assms(3) List_cold show ?thesis
    by (auto simp: cooler_def split: option.splits)
next
  case (Filter_cb name cb)
  with assms show ?thesis
    by (auto simp: filtmgr_filter_cb_def take_filter_def split: option.splits sum.splits if_splits)
next
  case Vacuum_pass
  with assms(1) have "s' = s \<or> (\<exists>v m b. clean_old_versions v m s = Some (Inr (b, s')))"
    using vacuum_pass_calls_clean [of s s'] by auto
  with clean_old_versions_wrappers assms(3) have "wrappers s w = Some W'" by blast
  then show ?thesis by simp
next
  case Vacuum
  with assms(1) have "\<exists>v m b. clean_old_versions v m s = Some (Inr (b, s'))"
    using vacuum_calls_clean [of s s'] by auto
  with clean_old_versions_wrappers assms(3) have "wrappers s w = Some W'" by blast
  then show ?thesis by simp
qed

lemma demo_cold_failed_batch:
  "filtmgr_check_keys demo_api demo_cold_mgr ''foo'' [''!''] 1 [7] =
     Inr (- 2, [7], touched demo_cold_mgr 10 (demo_wrapper ''foo'' True False False)
                      \<lparr>df_name = ''foo'', df_keys = [], df_proxied = False\<rparr>)"
proof -
  have t: "take_filter demo_cold_mgr (latest demo_cold_mgr) ''foo'' = Inr (Some 10)"
    and w: "wrappers demo_cold_mgr 10 = Some (demo_wrapper ''foo'' True False False)"
    by (simp_all add: demo_cold_mgr_def demo_mgr_def demo_v1_def demo_wrapper_def take_filter_def
          art_search_def)
  have a: "answers (bloomf_contains demo_api) (filter_obj (demo_wrapper ''foo'' True False False)) [''!'']
             = ([- 1], \<lparr>df_name = ''foo'', df_keys = [], df_proxied = False\<rparr>)"
    by (simp add: demo_api_def demo_wrapper_def)
  show ?thesis
    using keys_op_answers [OF t w _ a, of "[7]"]
    by (simp add: filtmgr_check_keys_def written_def)
qed

lemma add_filter_cold:
  assumes "add_filter api filt s vp name cfg False = Inr (r, s')"
    and "\<forall>w W. wrappers s w = Some W \<longrightarrow> \<not> is_hot W"
  shows "\<forall>w W. wrappers s' w = Some W \<longrightarrow> \<not> is_hot W"
  using assms by (auto simp: add_filter_def split: option.splits if_splits)

lemma load_loop_cold:
  assumes "load_loop api calloc_w namelist i s = Inr s'"
    and "\<forall>w W. wrappers s w = Some W \<longrightarrow> \<not> is_hot W"
  shows "\<forall>w W. wrappers s' w = Some W \<longrightarrow> \<not> is_hot W"
  using assms
proof (induction "length namelist - i" arbitrary: i s)
  case 0
  then show ?case by (subst (asm) load_loop.simps) auto
next
  case (Suc k)
  then have lt: "i < length namelist" by simp
  let ?name = "drop FOLDER_PREFIX_LEN (namelist ! i)"
  from Suc.prems(1) lt obtain res s1 where
    a: "add_filter api (calloc_w i) s (Some (latest s)) ?name (config s) False = Inr (res, s1)"
    and r: "load_loop api calloc_w namelist (Suc i) s1 = Inr s'"
    by (subst (asm) load_loop.simps) (auto simp: Let_def split: sum.splits)
  from add_filter_cold [OF a Suc.prems(2)]
  have c: "\<forall>w W. wrappers s1 w = Some W \<longrightarrow> \<not> is_hot W" .
  have "k = length namelist - Suc i" using Suc.hyps(2) by simp
  from Suc.hyps(1) [OF this r c] show ?case .
qed

lemma init_cold:
  assumes "init_filter_manager api art_ok thread_ok cfg v0 calloc_w dir = Inr (r, Some s)"
  shows "\<forall>w W. wrappers s w = Some W \<longrightarrow> \<not> is_hot W"
proof -
  let ?m = "\<lparr>config = cfg, latest = v0, clients = [],
             versions = [v0 \<mapsto> \<lparr>vsn = 0, filter_map = [], deleted = None, prev = None\<rparr>],
             wrappers = Map.empty, reclaimed = []\<rparr> :: 'a bloom_filtmgr"
  have m: "\<forall>w W. wrappers ?m w = Some W \<longrightarrow> \<not> is_hot W" by simp
  have "\<exists>r. load_existing_filters api calloc_w dir ?m = Inr (r, s)"
  proof (cases "load_existing_filters api calloc_w dir ?m")
    case (Inl e)
    with assms(1) show ?thesis
      by (simp add: init_filter_manager_def split: if_splits)
  next
    case (Inr y)
    obtain r m' where "y = (r, m')" by (cases y)
    with Inr assms(1) show ?thesis
      by (simp add: init_filter_manager_def split: if_splits)
  qed
  then obtain r' where ld: "load_existing_filters api calloc_w dir ?m = Inr (r', s)" ..
  show ?thesis
  proof (cases dir)
    case None
    with ld have "s = ?m" by (simp add: load_existing_filters_def)
    with m show ?thesis by simp
  next
    case (Some entries)
    with ld have "load_loop api calloc_w (scandir entries) 0 ?m = Inr s"
      by (cases "load_loop api calloc_w (scandir entries) 0 ?m")
        (simp_all add: load_existing_filters_def del: load_loop.simps)
    from load_loop_cold [OF this m] show ?thesis .
  qed
qed

lemma demo_loaded_init:
  "init_filter_manager demo_api True True 0 0 (\<lambda>i. 10 + i) (Some [''bloomd.foo'', ''lost+found''])
     = Inr (0, Some demo_loaded)"
  by (simp add: init_filter_manager_def load_existing_filters_def scandir_def
        filter_bloomd_folders_def FOLDER_PREFIX_def FOLDER_PREFIX_LEN_def add_filter_def
        demo_api_def demo_loaded_def demo_wrapper_def art_insert_def Let_def)

text \<open>
  C9 (as amended). The wrappers of the manager that \<open>init_filter_manager\<close> returns, which
  the loader made, are all cold. Let then a manager call leave the state \<open>s'\<close>, and let
  \<open>w\<close> hold a wrapper after it. If \<open>w\<close> held a wrapper before and its \<open>is_hot\<close> has
  changed, then either the flag is now true and the call was \<open>filtmgr_check_keys\<close> or
  \<open>filtmgr_set_keys\<close> on a name that \<open>take_filter\<close> resolves to \<open>w\<close> (whatever the
  call returned), or the flag is now false and the call was
  \<open>filtmgr_list_cold_filters\<close>. If \<open>w\<close> held no wrapper before, the call was
  \<open>filtmgr_create_filter\<close> and the new wrapper is hot.
\<close>

theorem is_hot_changes:
  "(init_filter_manager api art_ok thread_ok cfg v0 calloc_w dir = Inr (r, Some m)
      \<and> wrappers m w = Some W \<longrightarrow> \<not> is_hot W)
   \<and> (state_after api c s = Some (Inr s') \<and> alloc_ok c s \<and> wrappers s' w = Some W' \<longrightarrow>
        (\<forall>W. wrappers s w = Some W \<and> is_hot W' \<noteq> is_hot W \<longrightarrow>
            (is_hot W' \<and> (\<exists>name keys n result.
                 (c = Check_keys name keys n result \<or> c = Set_keys name keys n result)
                 \<and> take_filter s (latest s) name = Inr (Some w)))
            \<or> (\<not> is_hot W' \<and> c = List_cold))
        \<and> (wrappers s w = None \<longrightarrow>
            is_hot W' \<and> (\<exists>p copy_ok name cc. c = Create p w copy_ok name cc)))"
proof (rule conjI)
  show "init_filter_manager api art_ok thread_ok cfg v0 calloc_w dir = Inr (r, Some m)
          \<and> wrappers m w = Some W \<longrightarrow> \<not> is_hot W"
    using init_cold [of api art_ok thread_ok cfg v0 calloc_w dir r m] by blast
next
  show "state_after api c s = Some (Inr s') \<and> alloc_ok c s \<and> wrappers s' w = Some W' \<longrightarrow>
        (\<forall>W. wrappers s w = Some W \<and> is_hot W' \<noteq> is_hot W \<longrightarrow>
            (is_hot W' \<and> (\<exists>name keys n result.
                 (c = Check_keys name keys n result \<or> c = Set_keys name keys n result)
                 \<and> take_filter s (latest s) name = Inr (Some w)))
            \<or> (\<not> is_hot W' \<and> c = List_cold))
        \<and> (wrappers s w = None \<longrightarrow>
            is_hot W' \<and> (\<exists>p copy_ok name cc. c = Create p w copy_ok name cc))"
  proof (rule impI)
    assume a: "state_after api c s = Some (Inr s') \<and> alloc_ok c s \<and> wrappers s' w = Some W'"
    then have st: "state_after api c s = Some (Inr s')" and al: "alloc_ok c s"
      and w: "wrappers s' w = Some W'" by simp_all
    from call_changes_hot [OF st al w] show "(\<forall>W. wrappers s w = Some W \<and> is_hot W' \<noteq> is_hot W \<longrightarrow>
            (is_hot W' \<and> (\<exists>name keys n result.
                 (c = Check_keys name keys n result \<or> c = Set_keys name keys n result)
                 \<and> take_filter s (latest s) name = Inr (Some w)))
            \<or> (\<not> is_hot W' \<and> c = List_cold))
        \<and> (wrappers s w = None \<longrightarrow>
            is_hot W' \<and> (\<exists>p copy_ok name cc. c = Create p w copy_ok name cc))" .
  qed
qed

theorem is_hot_changes_witness:
  "init_filter_manager demo_api True True 0 0 (\<lambda>i. 10 + i) (Some [''bloomd.foo'', ''lost+found''])
     = Inr (0, Some demo_loaded)
   \<and> map_option is_hot (wrappers demo_loaded 10) = Some False
   \<and> alloc_ok (Check_keys ''foo'' [''!''] 1 [7]) demo_cold_mgr
   \<and> map_option is_hot (wrappers demo_cold_mgr 10) = Some False
   \<and> (\<exists>s'. state_after demo_api (Check_keys ''foo'' [''!''] 1 [7]) demo_cold_mgr = Some (Inr s')
          \<and> map_option is_hot (wrappers s' 10) = Some True)
   \<and> take_filter demo_cold_mgr (latest demo_cold_mgr) ''foo'' = Inr (Some 10)"
proof -
  let ?W = "demo_wrapper ''foo'' True False False"
  let ?s' = "touched demo_cold_mgr 10 ?W \<lparr>df_name = ''foo'', df_keys = [], df_proxied = False\<rparr>"
  let ?W' = "?W\<lparr>filter_obj := \<lparr>df_name = ''foo'', df_keys = [], df_proxied = False\<rparr>, is_hot := True\<rparr>"
  let ?c = "Check_keys ''foo'' [''!''] 1 [7] :: demo_filter manager_call"
  have st: "state_after demo_api ?c demo_cold_mgr = Some (Inr ?s')"
    by (simp add: demo_cold_failed_batch)
  have w: "wrappers demo_cold_mgr 10 = Some ?W" by (simp add: demo_cold_mgr_def)
  have w': "wrappers ?s' 10 = Some ?W'" by (simp add: touched_def)
  have ch: "is_hot ?W' \<noteq> is_hot ?W" by (simp add: demo_wrapper_def)
  have l: "wrappers demo_loaded 10 = Some ?W" by (simp add: demo_loaded_def)
  note t = is_hot_changes [of demo_api True True 0 0 "\<lambda>i. 10 + i"
      "Some [''bloomd.foo'', ''lost+found'']" 0 demo_loaded 10 ?W ?c demo_cold_mgr ?s' ?W']
  from t demo_loaded_init l have c: "\<not> is_hot ?W" by blast
  from t st w' w ch
  have "take_filter demo_cold_mgr (latest demo_cold_mgr) ''foo'' = Inr (Some 10)"
    by auto
  then show ?thesis using st w w' l c demo_loaded_init by (simp add: demo_wrapper_def)
qed

text \<open>
  C9 as stated fails: a \<open>filtmgr_check_keys\<close> call whose only key makes the filter err
  returns -2, not 0, and has set \<open>is_hot\<close> of a cold wrapper.
\<close>

theorem failed_batch_sets_hot:
  "map_option is_hot (wrappers demo_cold_mgr 10) = Some False
   \<and> (\<exists>s'. filtmgr_check_keys demo_api demo_cold_mgr ''foo'' [''!''] 1 [7] = Inr (- 2, [7], s')
          \<and> map_option is_hot (wrappers s' 10) = Some True)"
proof -
  have "map_option is_hot (wrappers demo_cold_mgr 10) = Some False"
    by (simp add: demo_cold_mgr_def demo_wrapper_def)
  moreover have "map_option is_hot (wrappers (touched demo_cold_mgr 10 (demo_wrapper ''foo'' True False False)
                      \<lparr>df_name = ''foo'', df_keys = [], df_proxied = False\<rparr>) 10) = Some True"
    by (simp add: touched_def)
  ultimately show ?thesis using demo_cold_failed_batch by blast
qed

subsection \<open>Well-formedness is kept\<close>

lemma is_chain_upd_other:
  "v \<notin> set ch \<Longrightarrow> is_chain (h(v := x)) q ch = is_chain h q ch"
  by (induction ch arbitrary: q) (auto split: option.splits)

lemma is_chain_upd_same_prev:
  "h v = Some V \<Longrightarrow> prev V' = prev V \<Longrightarrow> is_chain (h(v \<mapsto> V')) q ch = is_chain h q ch"
  by (induction ch arbitrary: q) (auto split: option.splits)

lemma parked_cong:
  "(\<And>v. v \<in> set vs \<Longrightarrow> deleted_of h' v = deleted_of h v) \<Longrightarrow> parked h' vs = parked h vs"
  by (induction vs) (auto split: option.splits)

lemma parked_append: "parked h (xs @ ys) = parked h xs @ parked h ys"
  by (induction xs) (auto split: option.splits)

lemma stepwise_append: "stepwise (xs @ ys) \<Longrightarrow> stepwise xs"
  by (induction xs rule: stepwise.induct) (auto elim: stepwise.elims)

lemma distinct_snd_key:
  "distinct (map snd t) \<Longrightarrow> (k1, v) \<in> set t \<Longrightarrow> (k2, v) \<in> set t \<Longrightarrow> k1 = k2"
  by (metis distinct_map inj_on_def prod.inject snd_conv)

lemma update_entries: "set (AList.update k v t) \<subseteq> insert (k, v) (set t)"
  by (induction t) auto

lemma update_distinct_snd:
  "distinct (map snd t) \<Longrightarrow> v \<notin> snd ` set t \<Longrightarrow> distinct (map snd (AList.update k v t))"
proof (induction t)
  case Nil
  then show ?case by simp
next
  case (Cons e t)
  have "snd ` set (AList.update k v t) \<subseteq> insert v (snd ` set t)"
    using update_entries [of k v t] by auto
  with Cons show ?case by (cases e) auto
qed

lemma delete_entries: "set (AList.delete k t) = {e \<in> set t. fst e \<noteq> k}"
  by (auto simp: AList.delete_eq)

lemma delete_distinct_snd: "distinct (map snd t) \<Longrightarrow> distinct (map snd (AList.delete k t))"
  by (simp add: AList.delete_eq distinct_map_filter)

lemma wf_mgr_frame:
  assumes "wf_mgr s ch" and "frame s s'"
  shows "wf_mgr s' ch"
  using assms unfolding wf_mgr_def frame_def by auto

lemma numbered_frame:
  assumes "numbered n s ch" and "frame s s'"
  shows "numbered n s' ch"
  using assms wf_mgr_frame [of s ch s'] unfolding numbered_def frame_def by auto

lemma frame_refl: "frame s s"
  by (simp add: frame_def)

lemma min_client_vsn_le: "min_client_vsn cls x \<le> x"
proof (induction cls arbitrary: x)
  case Nil
  then show ?case by simp
next
  case (Cons c cls)
  show ?case
  proof (cases "cl_vsn c < x")
    case True
    have "min_client_vsn cls (cl_vsn c) \<le> cl_vsn c" by (rule Cons.IH)
    with True show ?thesis by simp
  next
    case False
    with Cons.IH [of x] show ?thesis by simp
  qed
qed

lemma art_iter_cold_versions:
  "art_iter t (filter_map_list_cold_cb api) (head, s) = Inr (r, head', s') \<Longrightarrow>
     versions s' = versions s \<and> latest s' = latest s"
proof (induction t arbitrary: head s)
  case Nil
  then show ?case by simp
next
  case (Cons e t)
  obtain k u where e: "e = (k, u)" by (cases e)
  from Cons.prems e obtain r1 head1 s1 where
    cb: "filter_map_list_cold_cb api (head, s) k u = Inr (r1, head1, s1)"
    by (cases "filter_map_list_cold_cb api (head, s) k u") (auto split: prod.splits)
  then have r1: "r1 = 0" and v1: "versions s1 = versions s \<and> latest s1 = latest s"
    by (auto simp: filter_map_list_cold_cb_def split: option.splits if_splits)
  from Cons.prems e cb r1 have "art_iter t (filter_map_list_cold_cb api) (head1, s1) = Inr (r, head', s')"
    by simp
  from Cons.IH [OF this] v1 show ?case by simp
qed

lemma list_cold_frame:
  assumes "filtmgr_list_cold_filters api s = Inr (r, head, s')"
  shows "frame s s'"
proof -
  from assms obtain C where C: "versions s (latest s) = Some C"
    by (auto simp: filtmgr_list_cold_filters_def split: option.splits)
  from assms C have "\<exists>r0. art_iter (filter_map C) (filter_map_list_cold_cb api) ([], s) = Inr (r0, head, s')"
    by (auto simp: filtmgr_list_cold_filters_def split: sum.splits)
  then obtain r0 where
    "art_iter (filter_map C) (filter_map_list_cold_cb api) ([], s) = Inr (r0, head, s')" ..
  note v = art_iter_cold_versions [OF this]
  have al: "wrappers s' w \<noteq> None" if "wrappers s w \<noteq> None" for w
    using list_cold_cooler [OF assms, of w] that by (auto simp: cooler_def split: option.splits)
  show ?thesis using v al by (simp add: frame_def)
qed

lemma keys_op_frame:
  "keys_op call s name keys n result = Inr (r, res, s') \<Longrightarrow> frame s s'"
  by (auto simp: keys_op_def frame_def split: sum.splits option.splits)

lemma quiet_calls_frame:
  assumes "state_after api c s = Some (Inr s')"
    and "case c of Create p filt ok name cc \<Rightarrow> False | Drop p ok name \<Rightarrow> False
         | Clear p ok name \<Rightarrow> False | Vacuum_pass \<Rightarrow> False | Vacuum \<Rightarrow> False | _ \<Rightarrow> True"
  shows "frame s s'"
proof (cases c)
  case (Checkpoint tid)
  with assms(1) show ?thesis
    by (auto simp: filtmgr_client_checkpoint_def frame_def split: option.splits)
next
  case (Leave tid)
  with assms(1) show ?thesis by (auto simp: filtmgr_client_leave_def frame_def)
next
  case (Flush name)
  with assms(1) show ?thesis
    by (auto simp: filtmgr_flush_filter_def frame_def split: option.splits sum.splits)
next
  case (Check_keys name keys n result)
  with assms(1) obtain r res where
    "keys_op (bloomf_contains api) s name keys n result = Inr (r, res, s')"
    by (cases "filtmgr_check_keys api s name keys n result")
      (auto simp: filtmgr_check_keys_def split: prod.splits)
  then show ?thesis by (rule keys_op_frame)
next
  case (Set_keys name keys n result)
  with assms(1) obtain r res where
    "keys_op (bloomf_add api) s name keys n result = Inr (r, res, s')"
    by (cases "filtmgr_set_keys api s name keys n result")
      (auto simp: filtmgr_set_keys_def split: prod.splits)
  then show ?thesis by (rule keys_op_frame)
next
  case (Unmap name)
  with assms(1) show ?thesis
    by (auto simp: filtmgr_unmap_filter_def frame_def split: option.splits sum.splits if_splits)
next
  case (List_filters pfx)
  with assms(1) show ?thesis by (auto simp: frame_def map_sum_def split: sum.splits)
next
  case List_cold
  with assms(1) obtain r head where "filtmgr_list_cold_filters api s = Inr (r, head, s')"
    by (cases "filtmgr_list_cold_filters api s") (auto split: prod.splits)
  then show ?thesis by (rule list_cold_frame)
next
  case (Filter_cb name cb)
  with assms(1) show ?thesis
    by (auto simp: filtmgr_filter_cb_def frame_def split: option.splits sum.splits)
qed (use assms(2) in simp_all)

subsection \<open>Installing a version\<close>

lemma create_install_result:
  assumes "versions s (latest s) = Some L" and "versions s p = None"
    and "create_install api p filt copy_ok s name cc = Inr (r, s')"
  shows "(r = - 2 \<and> s' = s) \<or>
         (r = 0 \<and> (\<exists>W. s' = s\<lparr>wrappers := (wrappers s)(filt \<mapsto> W),
                               versions := (versions s)(p \<mapsto>
                                  \<lparr>vsn = vsn L + 1, filter_map = art_insert (filter_map L) name filt,
                                   deleted = None, prev = Some (latest s)\<rparr>),
                               latest := p\<rparr>))"
proof (cases copy_ok)
  case False
  with assms(1,3) show ?thesis by (simp add: create_install_copy_fails)
next
  case True
  let ?cfg = "case cc of Some c \<Rightarrow> c | None \<Rightarrow> config s"
  have undo: "s\<lparr>versions := ((versions s)(p := x))(p := None)\<rparr> = s" for x
    using assms(2) by (simp add: fun_upd_idem)
  show ?thesis
  proof (cases "init_bloom_filter api ?cfg name True")
    case None
    with assms True undo show ?thesis
      by (cases cc) (simp_all add: create_install_def create_new_version_def art_copy_def
            add_filter_def destroy_version_def Let_def)
  next
    case (Some f)
    with assms True show ?thesis
      by (cases cc) (auto simp: create_install_def create_new_version_def art_copy_def
            add_filter_def Let_def)
  qed
qed

lemma remove_install_result:
  assumes "versions s (latest s) = Some L" and "versions s p = None"
    and "remove_install p copy_ok del s name filt = Inr (r, s')"
  shows "r = 0 \<and> (\<exists>W. wrappers s filt \<noteq> None \<and>
           s' = s\<lparr>wrappers := (wrappers s)(filt \<mapsto> W),
                  versions := (versions s)
                    (p \<mapsto> \<lparr>vsn = vsn L + 1, filter_map = art_delete (filter_map L) name,
                            deleted = None, prev = Some (latest s)\<rparr>,
                     latest s \<mapsto> L\<lparr>deleted := Some filt\<rparr>),
                  latest := p\<rparr>)"
proof (cases copy_ok)
  case False
  show ?thesis
  proof (cases "wrappers s filt")
    case None
    with assms(3) show ?thesis by (simp add: remove_install_def)
  next
    case (Some W)
    from remove_install_copy_fails [OF assms(1) Some] assms(3) False show ?thesis by simp
  qed
next
  case True
  from assms(1,2) have ne: "p \<noteq> latest s" by auto
  from assms(3) obtain W where W: "wrappers s filt = Some W"
    by (cases "wrappers s filt") (simp_all add: remove_install_def)
  show ?thesis
    using assms True ne W
    by (auto simp: remove_install_def create_new_version_def art_copy_def Let_def fun_upd_twist)
qed

lemma numbered_head:
  assumes "numbered n s ch"
  shows "\<exists>L rest. ch = latest s # rest \<and> versions s (latest s) = Some L
           \<and> is_chain (versions s) (prev L) rest \<and> vsn L = of_nat n"
proof -
  from assms have c: "is_chain (versions s) (Some (latest s)) ch"
    and v: "vsn_of (versions s) (latest s) = of_nat n"
    by (simp_all add: numbered_def wf_mgr_def)
  from c obtain rest where ch: "ch = latest s # rest" by (cases ch) auto
  with c obtain L where "versions s (latest s) = Some L" "is_chain (versions s) (prev L) rest"
    by (auto split: option.splits)
  with ch v show ?thesis by (auto simp: vsn_of_def)
qed

lemma fresh_not_in_chain:
  "is_chain h q ch \<Longrightarrow> h p = None \<Longrightarrow> p \<notin> set ch"
  using is_chain_allocated [of h q ch p] by auto

lemma numbered_create:
  assumes "numbered n s ch"
    and "versions s (latest s) = Some L"
    and "versions s p = None"
    and "wrappers s filt = None"
  shows "numbered (Suc n)
           (s\<lparr>wrappers := (wrappers s)(filt \<mapsto> W),
              versions := (versions s)(p \<mapsto>
                 \<lparr>vsn = vsn L + 1, filter_map = art_insert (filter_map L) name filt,
                  deleted = None, prev = Some (latest s)\<rparr>),
              latest := p\<rparr>)
           (p # ch)"
proof -
  let ?h = "versions s"
  let ?N = "\<lparr>vsn = vsn L + 1, filter_map = art_insert (filter_map L) name filt,
            deleted = None, prev = Some (latest s)\<rparr>"
  let ?h' = "?h(p \<mapsto> ?N)"
  from assms(1) have c: "is_chain ?h (Some (latest s)) ch"
    and dp: "distinct (parked ?h ch)"
    and al: "\<forall>d\<in>set (parked ?h ch). wrappers s d \<noteq> None"
    and ix: "distinct (map snd (filter_map L))"
      "\<forall>e\<in>set (filter_map L). wrappers s (snd e) \<noteq> None \<and> snd e \<notin> set (parked ?h ch)"
    and sw: "stepwise (map (vsn_of ?h) ch)"
    and len: "length ch \<le> n + 1"
    using assms(2) by (simp_all add: numbered_def wf_mgr_def)
  from numbered_head [OF assms(1)] assms(2) obtain rest where
    ch: "ch = latest s # rest" and vn: "vsn L = of_nat n" by auto
  have fresh: "p \<notin> set ch" using c assms(3) by (rule fresh_not_in_chain)
  have c': "is_chain ?h' (Some p) (p # ch)"
    using c fresh by (simp add: is_chain_upd_other)
  have pk: "parked ?h' (p # ch) = parked ?h ch"
  proof -
    have "parked ?h' ch = parked ?h ch"
      using fresh by (intro parked_cong) (auto simp: deleted_of_def)
    then show ?thesis by (simp add: deleted_of_def)
  qed
  have fp: "filt \<notin> set (parked ?h ch)" using al assms(4) by auto
  have fi: "filt \<notin> snd ` set (filter_map L)" using ix(2) assms(4) by auto
  have ix1: "distinct (map snd (art_insert (filter_map L) name filt))"
    unfolding art_insert_def using ix(1) fi by (rule update_distinct_snd)
  have ix2: "\<forall>e\<in>set (art_insert (filter_map L) name filt).
               ((wrappers s)(filt \<mapsto> W)) (snd e) \<noteq> None \<and> snd e \<notin> set (parked ?h ch)"
    using update_entries [of name filt "filter_map L"] ix(2) fp
    by (auto simp: art_insert_def)
  have vs: "map (vsn_of ?h') (p # ch) = (vsn L + 1) # map (vsn_of ?h) ch"
    using fresh by (auto simp: vsn_of_def)
  have sw': "stepwise (map (vsn_of ?h') (p # ch))"
    unfolding vs using sw ch assms(2) by (simp add: vsn_of_def)
  have hd': "vsn_of ?h' p = of_nat (Suc n)" using vn by (simp add: vsn_of_def)
  show ?thesis
    unfolding numbered_def wf_mgr_def
    using c' pk dp al ix1 ix2 sw' hd' len by (simp del: is_chain.simps parked.simps)
qed

lemma numbered_remove:
  assumes "numbered n s ch"
    and "versions s (latest s) = Some L"
    and "versions s p = None"
    and "art_search (filter_map L) name = Some filt"
  shows "numbered (Suc n)
           (s\<lparr>wrappers := (wrappers s)(filt \<mapsto> W),
              versions := (versions s)
                (p \<mapsto> \<lparr>vsn = vsn L + 1, filter_map = art_delete (filter_map L) name,
                        deleted = None, prev = Some (latest s)\<rparr>,
                 latest s \<mapsto> L\<lparr>deleted := Some filt\<rparr>),
              latest := p\<rparr>)
           (p # ch)"
proof -
  let ?h = "versions s"
  let ?l = "latest s"
  let ?N = "\<lparr>vsn = vsn L + 1, filter_map = art_delete (filter_map L) name,
            deleted = None, prev = Some ?l\<rparr>"
  let ?h1 = "?h(p \<mapsto> ?N)"
  let ?h' = "?h1(?l \<mapsto> L\<lparr>deleted := Some filt\<rparr>)"
  from assms(1) have c: "is_chain ?h (Some ?l) ch"
    and dp: "distinct (parked ?h ch)"
    and al: "\<forall>d\<in>set (parked ?h ch). wrappers s d \<noteq> None"
    and ix: "distinct (map snd (filter_map L))"
      "\<forall>e\<in>set (filter_map L). wrappers s (snd e) \<noteq> None \<and> snd e \<notin> set (parked ?h ch)"
    and sw: "stepwise (map (vsn_of ?h) ch)"
    and len: "length ch \<le> n + 1"
    using assms(2) by (simp_all add: numbered_def wf_mgr_def)
  from numbered_head [OF assms(1)] assms(2) obtain rest where
    ch: "ch = ?l # rest" and vn: "vsn L = of_nat n" by auto
  have fresh: "p \<notin> set ch" using c assms(3) by (rule fresh_not_in_chain)
  have ne: "p \<noteq> ?l" using fresh ch by simp
  have lr: "?l \<notin> set rest" using c ch is_chain_head_fresh by blast
  have mem: "(name, filt) \<in> set (filter_map L)"
    using assms(4) by (auto simp: art_search_def dest: map_of_SomeD)
  have c1: "is_chain ?h1 (Some ?l) ch" using c fresh by (simp add: is_chain_upd_other)
  have h1l: "?h1 ?l = Some L" using ne assms(2) by simp
  have c2: "is_chain ?h' (Some ?l) ch"
    using c1 h1l is_chain_upd_same_prev [of ?h1 ?l L "L\<lparr>deleted := Some filt\<rparr>" "Some ?l" ch]
    by simp
  have c': "is_chain ?h' (Some p) (p # ch)" using c2 ne by simp
  have pr: "parked ?h' rest = parked ?h rest"
    using fresh lr ch by (intro parked_cong) (auto simp: deleted_of_def)
  have pk: "parked ?h' (p # ch) = filt # parked ?h rest"
    using pr ne ch by (simp add: deleted_of_def)
  have sub: "set (parked ?h rest) \<subseteq> set (parked ?h ch)"
    using ch by (auto simp: split: option.splits)
  have fnp: "filt \<notin> set (parked ?h ch)" using ix(2) mem by force
  have dr: "distinct (parked ?h rest)" using dp ch by (auto split: option.splits)
  have dp': "distinct (filt # parked ?h rest)" using dr fnp sub by auto
  have al': "\<forall>d\<in>set (filt # parked ?h rest). ((wrappers s)(filt \<mapsto> W)) d \<noteq> None"
    using al sub by auto
  have ix1: "distinct (map snd (art_delete (filter_map L) name))"
    unfolding art_delete_def using ix(1) by (rule delete_distinct_snd)
  have ix2: "\<forall>e\<in>set (art_delete (filter_map L) name).
               ((wrappers s)(filt \<mapsto> W)) (snd e) \<noteq> None \<and> snd e \<notin> set (filt # parked ?h rest)"
  proof
    fix e assume e: "e \<in> set (art_delete (filter_map L) name)"
    then have e1: "e \<in> set (filter_map L)" and e2: "fst e \<noteq> name"
      by (auto simp: art_delete_def delete_entries)
    have "snd e \<noteq> filt"
    proof
      assume "snd e = filt"
      with e1 have "(fst e, filt) \<in> set (filter_map L)" by (metis prod.collapse)
      from distinct_snd_key [OF ix(1) this mem] e2 show False by simp
    qed
    with ix(2) e1 sub show "((wrappers s)(filt \<mapsto> W)) (snd e) \<noteq> None \<and> snd e \<notin> set (filt # parked ?h rest)"
      by auto
  qed
  have vs: "map (vsn_of ?h') (p # ch) = (vsn L + 1) # map (vsn_of ?h) ch"
    using fresh ne assms(2) by (auto simp: vsn_of_def)
  have sw': "stepwise (map (vsn_of ?h') (p # ch))"
    unfolding vs using sw ch assms(2) by (simp add: vsn_of_def)
  have hd': "vsn_of ?h' p = of_nat (Suc n)" using vn ne by (simp add: vsn_of_def)
  have hp: "?h' p = Some ?N" using ne by simp
  show ?thesis
    unfolding numbered_def wf_mgr_def
    using c' pk dp' al' ix1 ix2 sw' hd' len hp
    by (simp del: is_chain.simps parked.simps distinct.simps fun_upd_apply)
qed

subsection \<open>Sweeping keeps the state well-formed\<close>

lemma deleted_of_swept:
  "\<not> doomed h m v \<Longrightarrow> deleted_of (swept_versions ch m h) v = deleted_of h v"
  by (auto simp: swept_versions_def deleted_of_def doomed_def vsn_of_def split: option.splits)

lemma vsn_of_swept:
  "\<not> doomed h m v \<Longrightarrow> vsn_of (swept_versions ch m h) v = vsn_of h v"
  by (auto simp: swept_versions_def doomed_def vsn_of_def split: option.splits)

lemma numbered_swept:
  assumes "numbered n s ch"
    and "versions s (latest s) = Some L"
    and "m \<le> vsn L"
  shows "numbered n (swept ch m s) (takeWhile (\<lambda>v. \<not> doomed (versions s) m v) ch)"
proof -
  let ?h = "versions s"
  let ?l = "latest s"
  let ?keep = "\<lambda>v. \<not> doomed ?h m v"
  let ?ch' = "takeWhile ?keep ch"
  let ?rest = "dropWhile ?keep ch"
  let ?h' = "swept_versions ch m ?h"
  let ?gone = "parked ?h (filter (doomed ?h m) ch)"
  from assms(1) have c: "is_chain ?h (Some ?l) ch"
    and dp: "distinct (parked ?h ch)"
    and al: "\<forall>d\<in>set (parked ?h ch). wrappers s d \<noteq> None"
    and ix: "distinct (map snd (filter_map L))"
      "\<forall>e\<in>set (filter_map L). wrappers s (snd e) \<noteq> None \<and> snd e \<notin> set (parked ?h ch)"
    and sw: "stepwise (map (vsn_of ?h) ch)"
    and vn: "vsn_of ?h ?l = of_nat n"
    and len: "length ch \<le> n + 1"
    using assms(2) by (simp_all add: numbered_def wf_mgr_def)
  have split: "ch = ?ch' @ ?rest" by simp
  have kl: "?keep ?l" using assms(2,3) by (simp add: doomed_def vsn_of_def not_less)
  have kept: "?keep v" if "v \<in> set ?ch'" for v using that by (rule set_takeWhileD [THEN conjunct2])
  have sub: "set ?ch' \<subseteq> set ch" by (auto dest: set_takeWhileD)
  have lm: "?l \<in> set ch" using c by (cases ch) auto
  have c': "is_chain ?h' (Some ?l) ?ch'"
    using swept_versions_chain [OF c subset_refl, of m] kl by simp
  have pk: "parked ?h' ?ch' = parked ?h ?ch'"
    using kept by (intro parked_cong) (simp add: deleted_of_swept)
  have pa: "parked ?h ch = parked ?h ?ch' @ parked ?h ?rest"
    by (simp only: parked_append [symmetric] takeWhile_dropWhile_id)
  have dp': "distinct (parked ?h ?ch')" using dp pa by simp
  have disj: "set (parked ?h ?ch') \<inter> set (parked ?h ?rest) = {}" using dp pa by simp
  have "filter (doomed ?h m) ?ch' = []" using kept by (simp add: filter_empty_conv)
  moreover have "filter (doomed ?h m) ch = filter (doomed ?h m) ?ch' @ filter (doomed ?h m) ?rest"
    by (simp only: filter_append [symmetric] takeWhile_dropWhile_id)
  ultimately have "filter (doomed ?h m) ch = filter (doomed ?h m) ?rest"
    by (simp only: append_Nil)
  then have gone: "set ?gone \<subseteq> set (parked ?h ?rest)"
    using parked_filter_subset [of ?h "doomed ?h m" ?rest] by simp
  have gone_ch: "set ?gone \<subseteq> set (parked ?h ch)"
    by (rule parked_filter_subset)
  have ws: "wrappers (swept ch m s) d = wrappers s d" if "d \<notin> set ?gone" for d
    using that by (simp add: swept_def)
  have al': "\<forall>d\<in>set (parked ?h ?ch'). wrappers (swept ch m s) d \<noteq> None"
  proof
    fix d assume d: "d \<in> set (parked ?h ?ch')"
    with disj gone have "d \<notin> set ?gone" by auto
    moreover from d pa have "d \<in> set (parked ?h ch)" by simp
    ultimately show "wrappers (swept ch m s) d \<noteq> None" using ws al by simp
  qed
  from swept_versions_kept [OF assms(2) kl lm]
  obtain L' where L': "?h' ?l = Some L'" and fm: "filter_map L' = filter_map L" by blast
  have ix': "\<forall>e\<in>set (filter_map L).
               wrappers (swept ch m s) (snd e) \<noteq> None \<and> snd e \<notin> set (parked ?h ?ch')"
  proof
    fix e assume "e \<in> set (filter_map L)"
    with ix(2) have a: "wrappers s (snd e) \<noteq> None" and b: "snd e \<notin> set (parked ?h ch)" by auto
    from b gone_ch have "snd e \<notin> set ?gone" by auto
    with a ws have "wrappers (swept ch m s) (snd e) \<noteq> None" by simp
    moreover from b pa have "snd e \<notin> set (parked ?h ?ch')" by simp
    ultimately show "wrappers (swept ch m s) (snd e) \<noteq> None \<and> snd e \<notin> set (parked ?h ?ch')" ..
  qed
  have vs: "map (vsn_of ?h') ?ch' = map (vsn_of ?h) ?ch'"
    using kept by (intro map_cong) (simp_all add: vsn_of_swept)
  have "map (vsn_of ?h) ch = map (vsn_of ?h) ?ch' @ map (vsn_of ?h) ?rest"
    by (simp only: map_append [symmetric] takeWhile_dropWhile_id)
  with sw have "stepwise (map (vsn_of ?h) ?ch' @ map (vsn_of ?h) ?rest)"
    by (simp only:)
  then have "stepwise (map (vsn_of ?h) ?ch')" by (rule stepwise_append)
  then have sw': "stepwise (map (vsn_of ?h') ?ch')" by (simp only: vs)
  have vn': "vsn_of ?h' ?l = of_nat n" using vn kl by (simp add: vsn_of_swept)
  have len': "length ?ch' \<le> n + 1" using len length_takeWhile_le [of ?keep ch] by simp
  have sel: "versions (swept ch m s) = ?h'" "latest (swept ch m s) = ?l"
    by (simp_all add: swept_def)
  show ?thesis
    unfolding numbered_def wf_mgr_def sel
    using c' pk dp' al' L' fm ix(1) ix' sw' vn' len'
    by simp
qed

lemma numbered_vacuum:
  assumes "numbered n s ch" and "filtmgr_vacuum s = Some (Inr s')"
  shows "latest s' = latest s \<and> (\<exists>ch'. numbered n s' ch')"
proof -
  from vacuum_calls_clean [OF assms(2)] obtain L b where
    L: "versions s (latest s) = Some L"
    and cl: "clean_old_versions (latest s) (vsn L) s = Some (Inr (b, s'))" by blast
  from assms(1) have w: "is_chain (versions s) (Some (latest s)) ch"
      "distinct (parked (versions s) ch)"
      "\<forall>d\<in>set (parked (versions s) ch). wrappers s d \<noteq> None"
    by (simp_all add: numbered_def wf_mgr_def)
  from clean_old_versions_chain [OF w, of "vsn L"] cl have s': "s' = swept ch (vsn L) s" by simp
  from numbered_swept [OF assms(1) L order_refl] s' show ?thesis
    by (auto simp: swept_def)
qed

lemma numbered_vacuum_pass:
  assumes "numbered n s ch" and "vacuum_pass s = Some (Inr s')"
  shows "latest s' = latest s \<and> (\<exists>ch'. numbered n s' ch')"
proof -
  from vacuum_pass_calls_clean [OF assms(2)] obtain C where
    C: "versions s (latest s) = Some C"
    and r: "s' = s \<or> (\<exists>b. clean_old_versions (latest s) (min_client_vsn (clients s) (vsn C)) s
                          = Some (Inr (b, s')))"
    by blast
  from r show ?thesis
  proof
    assume "s' = s"
    with assms(1) show ?thesis by blast
  next
    assume "\<exists>b. clean_old_versions (latest s) (min_client_vsn (clients s) (vsn C)) s = Some (Inr (b, s'))"
    then obtain b where
      cl: "clean_old_versions (latest s) (min_client_vsn (clients s) (vsn C)) s = Some (Inr (b, s'))" ..
    from assms(1) have w: "is_chain (versions s) (Some (latest s)) ch"
        "distinct (parked (versions s) ch)"
        "\<forall>d\<in>set (parked (versions s) ch). wrappers s d \<noteq> None"
      by (simp_all add: numbered_def wf_mgr_def)
    from clean_old_versions_chain [OF w, of "min_client_vsn (clients s) (vsn C)"] cl
    have s': "s' = swept ch (min_client_vsn (clients s) (vsn C)) s" by simp
    from numbered_swept [OF assms(1) C min_client_vsn_le] s' show ?thesis
      by (auto simp: swept_def)
  qed
qed

subsection \<open>Every reachable state is well-formed\<close>

lemma create_filter_result:
  assumes "versions s (latest s) = Some L" and "versions s p = None"
    and "filtmgr_create_filter api p filt copy_ok s name cc = Some (Inr (r, s'))"
  shows "s' = s \<or>
         (\<exists>W. s' = s\<lparr>wrappers := (wrappers s)(filt \<mapsto> W),
                      versions := (versions s)(p \<mapsto>
                         \<lparr>vsn = vsn L + 1, filter_map = art_insert (filter_map L) name filt,
                          deleted = None, prev = Some (latest s)\<rparr>),
                      latest := p\<rparr>)"
proof (cases "art_search (filter_map L) name")
  case (Some a)
  with assms show ?thesis by (simp add: filtmgr_create_filter_def)
next
  case None
  from assms(1,3) None have "Option.bind (pending_delete_scan api s (prev L) name)
      (\<lambda>r. case r of Inl e \<Rightarrow> Some (Inl e) | Inr True \<Rightarrow> Some (Inr (- 3, s))
            | Inr False \<Rightarrow> Some (create_install api p filt copy_ok s name cc)) = Some (Inr (r, s'))"
    by (simp add: filtmgr_create_filter_def)
  from scan_bind_Inr [OF this] obtain b where
    res: "(if b then Inr (- 3, s) else create_install api p filt copy_ok s name cc) = Inr (r, s')"
    by blast
  show ?thesis
  proof (cases b)
    case True
    with res show ?thesis by simp
  next
    case False
    with res have "create_install api p filt copy_ok s name cc = Inr (r, s')" by simp
    from create_install_result [OF assms(1,2) this] show ?thesis by blast
  qed
qed

lemma take_filter_found:
  "versions s (latest s) = Some L \<Longrightarrow> take_filter s (latest s) name = Inr (Some filt) \<Longrightarrow>
     art_search (filter_map L) name = Some filt"
  by (simp add: take_filter_resolves)

lemma removal_result:
  assumes "versions s (latest s) = Some L" and "versions s p = None"
    and "filtmgr_drop_filter p copy_ok s name = Inr (r, s')
         \<or> filtmgr_clear_filter api p copy_ok s name = Inr (r, s')"
  shows "s' = s \<or>
         (\<exists>W filt. art_search (filter_map L) name = Some filt \<and>
            s' = s\<lparr>wrappers := (wrappers s)(filt \<mapsto> W),
                   versions := (versions s)
                     (p \<mapsto> \<lparr>vsn = vsn L + 1, filter_map = art_delete (filter_map L) name,
                             deleted = None, prev = Some (latest s)\<rparr>,
                      latest s \<mapsto> L\<lparr>deleted := Some filt\<rparr>),
                   latest := p\<rparr>)"
proof (cases "take_filter s (latest s) name")
  case (Inl e)
  with assms(3) show ?thesis
    by (simp add: filtmgr_drop_filter_def filtmgr_clear_filter_def)
next
  case (Inr t)
  show ?thesis
  proof (cases t)
    case None
    with Inr assms(3) show ?thesis
      by (auto simp: filtmgr_drop_filter_def filtmgr_clear_filter_def)
  next
    case (Some filt)
    from take_filter_found [OF assms(1)] Inr Some
    have a: "art_search (filter_map L) name = Some filt" by simp
    from assms(3) Inr Some have
      "s' = s \<or> (\<exists>del. remove_install p copy_ok del s name filt = Inr (r, s'))"
      by (auto simp: filtmgr_drop_filter_def filtmgr_clear_filter_def
            split: option.splits if_splits)
    then show ?thesis
    proof
      assume "s' = s"
      then show ?thesis ..
    next
      assume "\<exists>del. remove_install p copy_ok del s name filt = Inr (r, s')"
      then obtain del where "remove_install p copy_ok del s name filt = Inr (r, s')" ..
      from remove_install_result [OF assms(1,2) this] a show ?thesis by blast
    qed
  qed
qed

lemma numbered_step:
  assumes "numbered n s ch"
    and "alloc_ok c s"
    and "state_after api c s = Some (Inr s')"
  shows "(latest s' = latest s \<and> (\<exists>ch'. numbered n s' ch'))
         \<or> (latest s' \<noteq> latest s \<and> numbered (Suc n) s' (latest s' # ch)
             \<and> (\<exists>L N. versions s (latest s) = Some L \<and> versions s' (latest s') = Some N
                   \<and> vsn N = vsn L + 1 \<and> prev N = Some (latest s)))"
proof -
  from numbered_head [OF assms(1)] obtain L where L: "versions s (latest s) = Some L" by blast
  have same: "latest s' = latest s \<and> (\<exists>ch'. numbered n s' ch')" if "s' = s"
    using that assms(1) by blast
  have quiet: "latest s' = latest s \<and> (\<exists>ch'. numbered n s' ch')" if "frame s s'"
    using that numbered_frame [OF assms(1) that] by (auto simp: frame_def)
  show ?thesis
  proof (cases c)
    case (Create p filt copy_ok name cc)
    with assms(2) have fp: "versions s p = None" and ff: "wrappers s filt = None" by simp_all
    from L fp have ne: "p \<noteq> latest s" by auto
    from Create assms(3) obtain r where
      "filtmgr_create_filter api p filt copy_ok s name cc = Some (Inr (r, s'))"
      by (cases "filtmgr_create_filter api p filt copy_ok s name cc")
        (auto simp: map_sum_def split: sum.splits)
    from create_filter_result [OF L fp this] show ?thesis
    proof
      assume "s' = s"
      then show ?thesis using same by simp
    next
      assume "\<exists>W. s' = s\<lparr>wrappers := (wrappers s)(filt \<mapsto> W),
                      versions := (versions s)(p \<mapsto>
                         \<lparr>vsn = vsn L + 1, filter_map = art_insert (filter_map L) name filt,
                          deleted = None, prev = Some (latest s)\<rparr>),
                      latest := p\<rparr>"
      then obtain W where s': "s' = s\<lparr>wrappers := (wrappers s)(filt \<mapsto> W),
                      versions := (versions s)(p \<mapsto>
                         \<lparr>vsn = vsn L + 1, filter_map = art_insert (filter_map L) name filt,
                          deleted = None, prev = Some (latest s)\<rparr>),
                      latest := p\<rparr>" ..
      from numbered_create [OF assms(1) L fp ff, where W = W and name = name]
      have "numbered (Suc n) s' (p # ch)" unfolding s' .
      then show ?thesis using s' ne L by simp
    qed
  next
    case (Drop p copy_ok name)
    with assms(2) have fp: "versions s p = None" by simp
    from L fp have ne: "p \<noteq> latest s" by auto
    from Drop assms(3) obtain r where "filtmgr_drop_filter p copy_ok s name = Inr (r, s')"
      by (cases "filtmgr_drop_filter p copy_ok s name") auto
    then have "filtmgr_drop_filter p copy_ok s name = Inr (r, s')
         \<or> filtmgr_clear_filter api p copy_ok s name = Inr (r, s')" ..
    from removal_result [OF L fp this] show ?thesis
    proof
      assume "s' = s"
      then show ?thesis using same by simp
    next
      assume "\<exists>W filt. art_search (filter_map L) name = Some filt \<and>
            s' = s\<lparr>wrappers := (wrappers s)(filt \<mapsto> W),
                   versions := (versions s)
                     (p \<mapsto> \<lparr>vsn = vsn L + 1, filter_map = art_delete (filter_map L) name,
                             deleted = None, prev = Some (latest s)\<rparr>,
                      latest s \<mapsto> L\<lparr>deleted := Some filt\<rparr>),
                   latest := p\<rparr>"
      then obtain W filt where a: "art_search (filter_map L) name = Some filt"
        and s': "s' = s\<lparr>wrappers := (wrappers s)(filt \<mapsto> W),
                   versions := (versions s)
                     (p \<mapsto> \<lparr>vsn = vsn L + 1, filter_map = art_delete (filter_map L) name,
                             deleted = None, prev = Some (latest s)\<rparr>,
                      latest s \<mapsto> L\<lparr>deleted := Some filt\<rparr>),
                   latest := p\<rparr>" by blast
      from numbered_remove [OF assms(1) L fp a, where W = W]
      have "numbered (Suc n) s' (p # ch)" unfolding s' .
      then show ?thesis using s' ne L by simp
    qed
  next
    case (Clear p copy_ok name)
    with assms(2) have fp: "versions s p = None" by simp
    from L fp have ne: "p \<noteq> latest s" by auto
    from Clear assms(3) obtain r where "filtmgr_clear_filter api p copy_ok s name = Inr (r, s')"
      by (cases "filtmgr_clear_filter api p copy_ok s name") auto
    then have "filtmgr_drop_filter p copy_ok s name = Inr (r, s')
         \<or> filtmgr_clear_filter api p copy_ok s name = Inr (r, s')" ..
    from removal_result [OF L fp this] show ?thesis
    proof
      assume "s' = s"
      then show ?thesis using same by simp
    next
      assume "\<exists>W filt. art_search (filter_map L) name = Some filt \<and>
            s' = s\<lparr>wrappers := (wrappers s)(filt \<mapsto> W),
                   versions := (versions s)
                     (p \<mapsto> \<lparr>vsn = vsn L + 1, filter_map = art_delete (filter_map L) name,
                             deleted = None, prev = Some (latest s)\<rparr>,
                      latest s \<mapsto> L\<lparr>deleted := Some filt\<rparr>),
                   latest := p\<rparr>"
      then obtain W filt where a: "art_search (filter_map L) name = Some filt"
        and s': "s' = s\<lparr>wrappers := (wrappers s)(filt \<mapsto> W),
                   versions := (versions s)
                     (p \<mapsto> \<lparr>vsn = vsn L + 1, filter_map = art_delete (filter_map L) name,
                             deleted = None, prev = Some (latest s)\<rparr>,
                      latest s \<mapsto> L\<lparr>deleted := Some filt\<rparr>),
                   latest := p\<rparr>" by blast
      from numbered_remove [OF assms(1) L fp a, where W = W]
      have "numbered (Suc n) s' (p # ch)" unfolding s' .
      then show ?thesis using s' ne L by simp
    qed
  next
    case Vacuum_pass
    with assms(3) numbered_vacuum_pass [OF assms(1)] show ?thesis by simp
  next
    case Vacuum
    with assms(3) numbered_vacuum [OF assms(1)] show ?thesis by simp
  qed (use quiet quiet_calls_frame [OF assms(3)] in simp_all)
qed

lemma add_filter_loading:
  assumes "inj calloc_w" and "loading v0 calloc_w i s"
    and "add_filter api (calloc_w i) s (Some (latest s)) name cfg hot = Inr (res, s')"
  shows "loading v0 calloc_w (Suc i) s'"
proof -
  from assms(2) obtain idx where l: "latest s = v0"
    and v: "versions s = [v0 \<mapsto> \<lparr>vsn = 0, filter_map = idx, deleted = None, prev = None\<rparr>]"
    and d: "distinct (map snd idx)"
    and r: "snd ` set idx \<subseteq> calloc_w ` {..<i}"
    and a: "\<forall>e\<in>set idx. wrappers s (snd e) \<noteq> None"
    by (auto simp: loading_def)
  have mono: "calloc_w ` {..<i} \<subseteq> calloc_w ` {..<Suc i}" by auto
  show ?thesis
  proof (cases "init_bloom_filter api cfg name hot")
    case None
    with assms(3) have "s' = s" by (simp add: add_filter_def)
    with l v d r a mono show ?thesis unfolding loading_def by blast
  next
    case (Some f)
    let ?W = "\<lparr>is_active = True, is_hot = hot, should_delete = False, filter_obj = f,
               custom = (if config s \<noteq> cfg then Some cfg else None)\<rparr>"
    let ?idx = "art_insert idx name (calloc_w i)"
    from Some assms(3) l v have s': "s' = s\<lparr>wrappers := (wrappers s)(calloc_w i \<mapsto> ?W),
        versions := [v0 \<mapsto> \<lparr>vsn = 0, filter_map = ?idx, deleted = None, prev = None\<rparr>]\<rparr>"
      by (simp add: add_filter_def)
    have nw: "calloc_w i \<notin> snd ` set idx"
    proof
      assume "calloc_w i \<in> snd ` set idx"
      with r obtain j where "j < i" "calloc_w j = calloc_w i" by auto
      with assms(1) show False by (auto dest: injD)
    qed
    have d': "distinct (map snd ?idx)"
      unfolding art_insert_def using d nw by (rule update_distinct_snd)
    have e': "set ?idx \<subseteq> insert (name, calloc_w i) (set idx)"
      unfolding art_insert_def by (rule update_entries)
    have r': "snd ` set ?idx \<subseteq> calloc_w ` {..<Suc i}"
    proof
      fix w assume "w \<in> snd ` set ?idx"
      then obtain e where e: "e \<in> set ?idx" and w: "w = snd e" by blast
      from e e' have "e = (name, calloc_w i) \<or> e \<in> set idx" by blast
      then show "w \<in> calloc_w ` {..<Suc i}"
      proof
        assume "e = (name, calloc_w i)"
        with w show ?thesis by simp
      next
        assume "e \<in> set idx"
        with w have "w \<in> snd ` set idx" by simp
        with r mono show ?thesis by blast
      qed
    qed
    have ws: "wrappers s' = (wrappers s)(calloc_w i \<mapsto> ?W)" by (simp add: s')
    have a': "\<forall>e\<in>set ?idx. wrappers s' (snd e) \<noteq> None"
    proof
      fix e assume "e \<in> set ?idx"
      with e' have "e = (name, calloc_w i) \<or> e \<in> set idx" by blast
      then show "wrappers s' (snd e) \<noteq> None" using a ws by auto
    qed
    have ls: "latest s' = v0" using l by (simp add: s')
    have vs: "versions s' = [v0 \<mapsto> \<lparr>vsn = 0, filter_map = ?idx, deleted = None, prev = None\<rparr>]"
      by (simp add: s')
    show ?thesis
      unfolding loading_def using ls vs d' r' a' by blast
  qed
qed

lemma load_loop_loading:
  assumes "inj calloc_w" and "loading v0 calloc_w i s"
    and "load_loop api calloc_w namelist i s = Inr s'"
  shows "\<exists>j. loading v0 calloc_w j s'"
  using assms(2,3)
proof (induction "length namelist - i" arbitrary: i s)
  case 0
  then show ?case by (subst (asm) load_loop.simps) auto
next
  case (Suc k)
  then have lt: "i < length namelist" by simp
  let ?name = "drop FOLDER_PREFIX_LEN (namelist ! i)"
  from Suc.prems(2) lt obtain res s1 where
    a: "add_filter api (calloc_w i) s (Some (latest s)) ?name (config s) False = Inr (res, s1)"
    and r: "load_loop api calloc_w namelist (Suc i) s1 = Inr s'"
    by (subst (asm) load_loop.simps) (auto simp: Let_def split: sum.splits)
  from add_filter_loading [OF assms(1) Suc.prems(1) a]
  have "loading v0 calloc_w (Suc i) s1" .
  moreover have "k = length namelist - Suc i" using Suc.hyps(2) by simp
  ultimately show ?case using Suc.hyps(1) r by blast
qed

lemma loading_numbered:
  assumes "loading v0 calloc_w i s"
  shows "numbered 0 s [v0] \<and> latest s = v0
         \<and> map_option vsn (versions s v0) = Some 0 \<and> map_option prev (versions s v0) = Some None"
proof -
  from assms obtain idx where l: "latest s = v0"
    and v: "versions s = [v0 \<mapsto> \<lparr>vsn = 0, filter_map = idx, deleted = None, prev = None\<rparr>]"
    and d: "distinct (map snd idx)"
    and a: "\<forall>e\<in>set idx. wrappers s (snd e) \<noteq> None"
    by (auto simp: loading_def)
  show ?thesis
    using l v d a by (simp add: numbered_def wf_mgr_def deleted_of_def vsn_of_def)
qed

lemma init_numbered:
  assumes "init_filter_manager api art_ok thread_ok cfg v0 calloc_w dir = Inr (0, Some s)"
    and "inj calloc_w"
  shows "numbered 0 s [v0] \<and> latest s = v0
         \<and> map_option vsn (versions s v0) = Some 0 \<and> map_option prev (versions s v0) = Some None"
proof -
  let ?m = "\<lparr>config = cfg, latest = v0, clients = [],
             versions = [v0 \<mapsto> \<lparr>vsn = 0, filter_map = [], deleted = None, prev = None\<rparr>],
             wrappers = Map.empty, reclaimed = []\<rparr> :: 'a bloom_filtmgr"
  have m: "loading v0 calloc_w 0 ?m" by (simp add: loading_def)
  have "\<exists>r. load_existing_filters api calloc_w dir ?m = Inr (r, s)"
  proof (cases "load_existing_filters api calloc_w dir ?m")
    case (Inl e)
    with assms(1) show ?thesis
      by (simp add: init_filter_manager_def split: if_splits)
  next
    case (Inr y)
    obtain r m' where "y = (r, m')" by (cases y)
    with Inr assms(1) show ?thesis
      by (simp add: init_filter_manager_def split: if_splits)
  qed
  then obtain r where ld: "load_existing_filters api calloc_w dir ?m = Inr (r, s)" ..
  have "\<exists>j. loading v0 calloc_w j s"
  proof (cases dir)
    case None
    with ld have "s = ?m" by (simp add: load_existing_filters_def)
    with m show ?thesis by blast
  next
    case (Some entries)
    with ld have "load_loop api calloc_w (scandir entries) 0 ?m = Inr s"
      by (cases "load_loop api calloc_w (scandir entries) 0 ?m")
        (simp_all add: load_existing_filters_def del: load_loop.simps)
    from load_loop_loading [OF assms(2) m this] show ?thesis .
  qed
  then show ?thesis using loading_numbered by blast
qed

lemma reachable_numbered: "reachable n s \<Longrightarrow> \<exists>ch. numbered n s ch"
proof (induction rule: reachable.induct)
  case (init api art_ok thread_ok cfg v0 calloc_w dir s)
  from init_numbered [OF this] show ?case by blast
next
  case (call n s c api s')
  from call.IH obtain ch where "numbered n s ch" ..
  from numbered_step [OF this call.hyps(2,3)] show ?case by auto
qed

subsection \<open>Version numbers along the chain\<close>

lemma stepwise_sorted:
  assumes "stepwise ws" and "ws \<noteq> []" and "hd ws = of_nat n"
    and "length ws \<le> n + 1" and "n < 2 ^ 64"
  shows "sorted_wrt (>) ws"
  using assms
proof (induction ws arbitrary: n rule: stepwise.induct)
  case 1
  then show ?case by simp
next
  case (2 x)
  then show ?case by simp
next
  case (3 x y r)
  from "3.prems" have xy: "x = y + 1" and st: "stepwise (y # r)" and x: "x = of_nat n"
    and n1: "1 \<le> n" and len: "length (y # r) \<le> (n - 1) + 1" and nb: "n - 1 < 2 ^ 64"
    by auto
  from xy x have "y = of_nat n - 1" by simp
  also have "\<dots> = of_nat (n - 1)" using n1 by (simp add: of_nat_diff)
  finally have y: "y = of_nat (n - 1)" .
  from "3.IH" [OF st _ _ len nb] y have s: "sorted_wrt (>) (y # r)" by simp
  have ux: "unat x = n" using x "3.prems"(5) by (simp add: unat_of_nat)
  have uy: "unat y = n - 1" using y nb by (simp add: unat_of_nat)
  have yx: "y < x" using ux uy n1 by (simp add: word_less_nat_alt)
  have "\<forall>z\<in>set (y # r). z < x"
  proof
    fix z assume "z \<in> set (y # r)"
    then have "z = y \<or> z < y" using s by auto
    with yx show "z < x" by auto
  qed
  with s show ?case by simp
qed

lemma numbered_sorted:
  assumes "numbered n s ch" and "n < 2 ^ 64"
  shows "sorted_wrt (>) (map (vsn_of (versions s)) ch)"
proof -
  from numbered_head [OF assms(1)] obtain rest where ch: "ch = latest s # rest" by blast
  from assms(1) have "stepwise (map (vsn_of (versions s)) ch)"
    "vsn_of (versions s) (latest s) = of_nat n" "length ch \<le> n + 1"
    by (simp_all add: numbered_def)
  with ch assms(2) show ?thesis
    by (intro stepwise_sorted [where n = n]) simp_all
qed

text \<open>
  C5 (as amended). In every state reached from \<open>init_filter_manager\<close> by manager calls,
  \<open>n\<close> of which installed a version: the versions reached from \<open>latest\<close> through \<open>prev\<close>
  form a finite chain without repetition that ends at NULL, and each version's number
  is its predecessor's plus one in 64-bit arithmetic, so that the numbers strictly
  increase from tail to head as long as \<open>n < 2 ^ 64\<close>. A call that changes \<open>latest\<close>
  has built the new version with the number of the previous latest plus one and with
  \<open>prev\<close> pointing at it. The version \<open>init_filter_manager\<close> creates has number 0 and
  no \<open>prev\<close>.
\<close>

theorem version_chain_numbering:
  assumes "reachable n (s :: 'f bloom_filtmgr)"
  shows "(\<exists>ch. is_chain (versions s) (Some (latest s)) ch \<and> distinct ch
            \<and> stepwise (map (vsn_of (versions s)) ch)
            \<and> (n < 2 ^ 64 \<longrightarrow> sorted_wrt (>) (map (vsn_of (versions s)) ch)))
       \<and> (\<forall>api c s'. alloc_ok c s \<and> state_after api c s = Some (Inr s') \<and> latest s' \<noteq> latest s
             \<longrightarrow> (\<exists>L N. versions s (latest s) = Some L \<and> versions s' (latest s') = Some N
                     \<and> vsn N = vsn L + 1 \<and> prev N = Some (latest s)))
       \<and> (\<forall>api art_ok thread_ok cfg v0 calloc_w dir s0.
             init_filter_manager api art_ok thread_ok cfg v0 calloc_w dir = Inr (0, Some (s0 :: 'f bloom_filtmgr))
             \<and> inj calloc_w
             \<longrightarrow> map_option vsn (versions s0 (latest s0)) = Some 0
                 \<and> map_option prev (versions s0 (latest s0)) = Some None)"
proof (intro conjI allI impI)
  from reachable_numbered [OF assms] obtain ch where nb: "numbered n s ch" ..
  then have c: "is_chain (versions s) (Some (latest s)) ch"
    and st: "stepwise (map (vsn_of (versions s)) ch)"
    by (simp_all add: numbered_def wf_mgr_def)
  from c have "distinct ch" by (rule is_chain_distinct)
  with c st numbered_sorted [OF nb]
  show "\<exists>ch. is_chain (versions s) (Some (latest s)) ch \<and> distinct ch
            \<and> stepwise (map (vsn_of (versions s)) ch)
            \<and> (n < 2 ^ 64 \<longrightarrow> sorted_wrt (>) (map (vsn_of (versions s)) ch))"
    by blast
next
  fix api :: "'f filter_api" and c s'
  assume a: "alloc_ok c s \<and> state_after api c s = Some (Inr s') \<and> latest s' \<noteq> latest s"
  from reachable_numbered [OF assms] obtain ch where nb: "numbered n s ch" ..
  from a have "alloc_ok c s" "state_after api c s = Some (Inr s')" by simp_all
  from numbered_step [OF nb this] a
  show "\<exists>L N. versions s (latest s) = Some L \<and> versions s' (latest s') = Some N
                     \<and> vsn N = vsn L + 1 \<and> prev N = Some (latest s)"
    by blast
next
  fix api :: "'f filter_api" and art_ok thread_ok cfg v0 calloc_w dir and s0 :: "'f bloom_filtmgr"
  assume "init_filter_manager api art_ok thread_ok cfg v0 calloc_w dir = Inr (0, Some s0) \<and> inj calloc_w"
  then have i: "init_filter_manager api art_ok thread_ok cfg v0 calloc_w dir = Inr (0, Some s0)"
    and j: "inj calloc_w" by simp_all
  from init_numbered [OF i j]
  show "map_option vsn (versions s0 (latest s0)) = Some 0"
    "map_option prev (versions s0 (latest s0)) = Some None"
    by simp_all
qed

subsection \<open>The version counter wraps\<close>

lemma demo_init_reachable: "reachable 0 demo_init"
proof -
  have "init_filter_manager demo_api True True 0 0 id None = Inr (0, Some demo_init)"
    by (simp add: init_filter_manager_def load_existing_filters_def demo_init_def)
  then show ?thesis by (rule reachable.init) simp
qed

lemma create_install_value:
  assumes "versions s (latest s) = Some L"
    and "init_bloom_filter api (config s) name True = Some f"
  shows "create_install api p filt True s name None =
           Inr (0, s\<lparr>wrappers := (wrappers s)(filt \<mapsto>
                        \<lparr>is_active = True, is_hot = True, should_delete = False,
                         filter_obj = f, custom = None\<rparr>),
                     versions := (versions s)(p \<mapsto>
                        \<lparr>vsn = vsn L + 1, filter_map = art_insert (filter_map L) name filt,
                         deleted = None, prev = Some (latest s)\<rparr>),
                     latest := p\<rparr>)"
  using assms
  by (simp add: create_install_def create_new_version_def art_copy_def add_filter_def Let_def)

lemma vacuum_chain:
  assumes "versions s (latest s) = Some L"
    and "is_chain (versions s) (Some (latest s)) ch"
    and "distinct (parked (versions s) ch)"
    and "\<forall>d\<in>set (parked (versions s) ch). wrappers s d \<noteq> None"
  shows "filtmgr_vacuum s = Some (Inr (swept ch (vsn L) s))"
  using assms(1) clean_old_versions_chain [OF assms(2,3,4), of "vsn L"]
  by (simp add: filtmgr_vacuum_def)

lemma lean_create_vacuum:
  assumes "reachable n (lean_empty n l log)"
    and "(of_nat n :: 64 word) < of_nat n + 1"
    and "l' \<noteq> l"
  shows "reachable (Suc n) (lean_full (Suc n) l' log)"
proof -
  let ?s = "lean_empty n l log"
  let ?L = "\<lparr>vsn = of_nat n, filter_map = [], deleted = None, prev = None\<rparr> :: filtmgr_vsn"
  let ?N = "\<lparr>vsn = of_nat n + 1, filter_map = [(''a'', 10)], deleted = None, prev = Some l\<rparr> :: filtmgr_vsn"
  let ?m = "\<lparr>config = 0, latest = l', clients = [], versions = [l \<mapsto> ?L, l' \<mapsto> ?N],
             wrappers = [10 \<mapsto> demo_a], reclaimed = log\<rparr> :: demo_filter bloom_filtmgr"
  have L: "versions ?s (latest ?s) = Some ?L" by (simp add: lean_empty_def)
  have a: "art_search (filter_map ?L) ''a'' = None" by (simp add: art_search_def)
  have c: "is_chain (versions ?s) (prev ?L) []" by simp
  have al: "\<forall>d\<in>set (parked (versions ?s) []). wrappers ?s d \<noteq> None" by simp
  have ini: "init_bloom_filter demo_api (config ?s) ''a'' True
               = Some \<lparr>df_name = ''a'', df_keys = [], df_proxied = False\<rparr>"
    by (simp add: demo_api_def)
  have "create_install demo_api l' 10 True ?s ''a'' None = Inr (0, ?m)"
    unfolding create_install_value [OF L ini]
    by (simp add: lean_empty_def demo_a_def art_insert_def)
  then have "filtmgr_create_filter demo_api l' 10 True ?s ''a'' None = Some (Inr (0, ?m))"
    using create_after_scan [OF L a c al, of demo_api l' 10 True None] by simp
  then have st: "state_after demo_api (Create l' 10 True ''a'' None) ?s = Some (Inr ?m)" by simp
  have ok: "alloc_ok (Create l' 10 True ''a'' None) ?s" using assms(3) by (simp add: lean_empty_def)
  have ne: "latest ?m \<noteq> latest ?s" using assms(3) by (simp add: lean_empty_def)
  from reachable.call [OF assms(1) ok st] ne have r: "reachable (Suc n) ?m" by simp
  have N: "versions ?m (latest ?m) = Some ?N" by simp
  have ch: "is_chain (versions ?m) (Some (latest ?m)) [l', l]" using assms(3) by simp
  have pk: "parked (versions ?m) [l', l] = []" using assms(3) by (simp add: deleted_of_def)
  have "swept [l', l] (vsn ?N) ?m = lean_full (Suc n) l' log"
    using assms(2,3) pk
    by (auto simp: swept_def swept_versions_def lean_full_def doomed_def vsn_of_def
          deleted_of_def reclaim_calls_def fun_eq_iff)
  with vacuum_chain [OF N ch] pk have "filtmgr_vacuum ?m = Some (Inr (lean_full (Suc n) l' log))"
    by simp
  then have st2: "state_after demo_api Vacuum ?m = Some (Inr (lean_full (Suc n) l' log))" by simp
  have "latest (lean_full (Suc n) l' log) = latest ?m" by (simp add: lean_full_def)
  with reachable.call [OF r _ st2] show ?thesis by simp
qed

lemma drop_filter_state:
  assumes "versions s (latest s) = Some L"
    and "versions s p = None"
    and "take_filter s (latest s) name = Inr (Some filt)"
    and "wrappers s filt = Some W"
  shows "filtmgr_drop_filter p True s name =
           Inr (0, s\<lparr>wrappers := (wrappers s)(filt \<mapsto> W\<lparr>is_active := False, should_delete := True\<rparr>),
                     versions := (versions s)
                       (p \<mapsto> \<lparr>vsn = vsn L + 1, filter_map = art_delete (filter_map L) name,
                               deleted = None, prev = Some (latest s)\<rparr>,
                        latest s \<mapsto> L\<lparr>deleted := Some filt\<rparr>),
                     latest := p\<rparr>)"
proof -
  from assms(1,2) have ne: "p \<noteq> latest s" by auto
  show ?thesis
    using assms ne
    by (simp add: filtmgr_drop_filter_def remove_install_def create_new_version_def
          art_copy_def Let_def fun_upd_twist)
qed

lemma lean_drop:
  assumes "reachable n (lean_full n l log)" and "l' \<noteq> l"
  shows "reachable (Suc n) (lean_dropped n l l' log)"
proof -
  let ?s = "lean_full n l log"
  let ?L = "\<lparr>vsn = of_nat n, filter_map = [(''a'', 10)], deleted = None, prev = None\<rparr> :: filtmgr_vsn"
  have L: "versions ?s (latest ?s) = Some ?L" by (simp add: lean_full_def)
  have fp: "versions ?s l' = None" using assms(2) by (simp add: lean_full_def)
  have t: "take_filter ?s (latest ?s) ''a'' = Inr (Some 10)"
    by (simp add: take_filter_def lean_full_def art_search_def demo_a_def)
  have w: "wrappers ?s 10 = Some demo_a" by (simp add: lean_full_def)
  have "filtmgr_drop_filter l' True ?s ''a'' = Inr (0, lean_dropped n l l' log)"
    unfolding drop_filter_state [OF L fp t w]
    using assms(2)
    by (auto simp: lean_full_def lean_dropped_def art_delete_def fun_eq_iff)
  then have st: "state_after demo_api (Drop l' True ''a'') ?s = Some (Inr (lean_dropped n l l' log))"
    by simp
  have ok: "alloc_ok (Drop l' True ''a'') ?s" using fp by simp
  have ne: "latest (lean_dropped n l l' log) \<noteq> latest ?s"
    using assms(2) by (simp add: lean_full_def lean_dropped_def)
  from reachable.call [OF assms(1) ok st] ne show ?thesis by simp
qed

lemma lean_drop_vacuum:
  assumes "reachable n (lean_full n l log)"
    and "(of_nat n :: 64 word) < of_nat n + 1"
    and "l' \<noteq> l"
  shows "reachable (Suc n) (lean_empty (Suc n) l'
           (Bloomf_delete \<lparr>df_name = ''a'', df_keys = [], df_proxied = False\<rparr> # log))"
proof -
  let ?m = "lean_dropped n l l' log"
  let ?N = "\<lparr>vsn = of_nat n + 1, filter_map = [], deleted = None, prev = Some l\<rparr> :: filtmgr_vsn"
  let ?e = "lean_empty (Suc n) l' (Bloomf_delete \<lparr>df_name = ''a'', df_keys = [], df_proxied = False\<rparr> # log)"
  from lean_drop [OF assms(1,3)] have r: "reachable (Suc n) ?m" .
  have N: "versions ?m (latest ?m) = Some ?N" by (simp add: lean_dropped_def)
  have ch: "is_chain (versions ?m) (Some (latest ?m)) [l', l]"
    using assms(3) by (simp add: lean_dropped_def)
  have pk: "parked (versions ?m) [l', l] = [10]"
    using assms(3) by (simp add: lean_dropped_def deleted_of_def)
  have al: "\<forall>d\<in>set (parked (versions ?m) [l', l]). wrappers ?m d \<noteq> None"
    unfolding pk by (simp add: lean_dropped_def)
  have "swept [l', l] (vsn ?N) ?m = ?e"
    using assms(2,3)
    by (auto simp: swept_def swept_versions_def lean_empty_def lean_dropped_def doomed_def
          vsn_of_def deleted_of_def reclaim_calls_def reclaim_call_of_def demo_a_def fun_eq_iff)
  with vacuum_chain [OF N ch _ al] pk have "filtmgr_vacuum ?m = Some (Inr ?e)" by simp
  then have st: "state_after demo_api Vacuum ?m = Some (Inr ?e)" by simp
  have "latest ?e = latest ?m" by (simp add: lean_empty_def lean_dropped_def)
  with reachable.call [OF r _ st] show ?thesis by simp
qed

lemma word_less_succ:
  assumes "Suc n < 2 ^ 64"
  shows "(of_nat n :: 64 word) < of_nat n + 1"
proof -
  have n: "n < 2 ^ LENGTH(64)" and sn: "Suc n < 2 ^ LENGTH(64)" using assms by simp_all
  have e: "(of_nat (Suc n) :: 64 word) = of_nat n + 1" by simp
  have "unat (of_nat n :: 64 word) = n" using n by (rule of_nat_inverse [OF refl])
  moreover have "unat (of_nat n + 1 :: 64 word) = Suc n" using e sn by (rule of_nat_inverse)
  ultimately show ?thesis by (simp only: word_less_nat_alt lessI)
qed

lemma lean_reachable:
  "n < 2 ^ 64 \<Longrightarrow>
     \<exists>l log. reachable n (if even n then lean_empty n l log else lean_full n l log)"
proof (induction n)
  case 0
  have "lean_empty 0 0 [] = demo_init" by (simp add: lean_empty_def demo_init_def)
  with demo_init_reachable have "reachable 0 (lean_empty 0 0 [])" by simp
  then show ?case by auto
next
  case (Suc n)
  then have "n < 2 ^ 64" by simp
  from Suc.IH [OF this] obtain l log where
    r: "reachable n (if even n then lean_empty n l log else lean_full n l log)" by blast
  note lt = word_less_succ [OF Suc.prems]
  have ne: "Suc l \<noteq> l" by simp
  show ?case
  proof (cases "even n")
    case True
    with r have "reachable n (lean_empty n l log)" by simp
    from lean_create_vacuum [OF this lt ne] True show ?thesis by auto
  next
    case False
    with r have "reachable n (lean_full n l log)" by simp
    from lean_drop_vacuum [OF this lt ne] False show ?thesis by auto
  qed
qed

text \<open>
  C5 as stated fails: \<open>vsn\<close> is an \<open>unsigned long long\<close>. Creating the filter \<open>a\<close>,
  vacuuming, dropping it and vacuuming again, over and over, keeps a single version and
  at most one wrapper, and after \<open>2 ^ 64 - 1\<close> installs that version is numbered
  \<open>2 ^ 64 - 1\<close>. The next drop installs a version numbered 0 above it.
\<close>

theorem version_numbers_wrap:
  "\<not> (\<forall>n (s :: demo_filter bloom_filtmgr). reachable n s \<longrightarrow>
        (\<exists>ch. is_chain (versions s) (Some (latest s)) ch
             \<and> sorted_wrt (>) (map (vsn_of (versions s)) ch)))"
proof
  assume always: "\<forall>n (s :: demo_filter bloom_filtmgr). reachable n s \<longrightarrow>
        (\<exists>ch. is_chain (versions s) (Some (latest s)) ch
             \<and> sorted_wrt (>) (map (vsn_of (versions s)) ch))"
  let ?n = "2 ^ 64 - 1 :: nat"
  have odd: "\<not> even ?n" by simp
  from lean_reachable [of ?n] odd obtain l log where "reachable ?n (lean_full ?n l log)"
    by auto
  from lean_drop [OF this, of "Suc l"] have r: "reachable (Suc ?n) (lean_dropped ?n l (Suc l) log)"
    by simp
  let ?s = "lean_dropped ?n l (Suc l) log"
  have c: "is_chain (versions ?s) (Some (latest ?s)) [Suc l, l]"
    by (simp add: lean_dropped_def)
  from always r obtain ch where c': "is_chain (versions ?s) (Some (latest ?s)) ch"
    and so: "sorted_wrt (>) (map (vsn_of (versions ?s)) ch)" by blast
  from is_chain_unique [OF c' c] so
  have "vsn_of (versions ?s) l < vsn_of (versions ?s) (Suc l)" by simp
  moreover have "vsn_of (versions ?s) (Suc l) = 0"
    by (simp add: lean_dropped_def vsn_of_def)
  ultimately show False by simp
qed

theorem version_chain_numbering_witness:
  "reachable 0 demo_init
   \<and> (\<exists>ch. is_chain (versions demo_init) (Some (latest demo_init)) ch \<and> distinct ch
          \<and> sorted_wrt (>) (map (vsn_of (versions demo_init)) ch))
   \<and> alloc_ok (Create 1 10 True ''a'' None) demo_init
   \<and> (\<exists>s'. state_after demo_api (Create 1 10 True ''a'' None) demo_init = Some (Inr s')
          \<and> latest s' = 1
          \<and> (\<exists>L N. versions demo_init (latest demo_init) = Some L \<and> versions s' (latest s') = Some N
                \<and> vsn N = vsn L + 1 \<and> prev N = Some (latest demo_init)))"
proof -
  note t = version_chain_numbering [OF demo_init_reachable]
  let ?L = "\<lparr>vsn = 0, filter_map = [], deleted = None, prev = None\<rparr>"
  have L: "versions demo_init (latest demo_init) = Some ?L" by (simp add: demo_init_def)
  have a: "art_search (filter_map ?L) ''a'' = None" by (simp add: art_search_def)
  have c: "is_chain (versions demo_init) (prev ?L) []" by simp
  have al: "\<forall>d\<in>set (parked (versions demo_init) []). wrappers demo_init d \<noteq> None" by simp
  have ini: "init_bloom_filter demo_api (config demo_init) ''a'' True
               = Some \<lparr>df_name = ''a'', df_keys = [], df_proxied = False\<rparr>"
    by (simp add: demo_api_def)
  have ci: "create_install demo_api 1 10 True demo_init ''a'' None =
           Inr (0, demo_init\<lparr>wrappers := (wrappers demo_init)(10 \<mapsto> demo_a),
                     versions := (versions demo_init)(1 \<mapsto>
                        \<lparr>vsn = vsn ?L + 1, filter_map = art_insert (filter_map ?L) ''a'' 10,
                         deleted = None, prev = Some (latest demo_init)\<rparr>),
                     latest := 1\<rparr>)"
    unfolding create_install_value [OF L ini] by (simp add: demo_a_def)
  let ?s' = "demo_init\<lparr>wrappers := (wrappers demo_init)(10 \<mapsto> demo_a),
                     versions := (versions demo_init)(1 \<mapsto>
                        \<lparr>vsn = vsn ?L + 1, filter_map = art_insert (filter_map ?L) ''a'' 10,
                         deleted = None, prev = Some (latest demo_init)\<rparr>),
                     latest := 1\<rparr>"
  have "filtmgr_create_filter demo_api 1 10 True demo_init ''a'' None = Some (Inr (0, ?s'))"
    using create_after_scan [OF L a c al, of demo_api 1 10 True None] ci by simp
  then have st: "state_after demo_api (Create 1 10 True ''a'' None) demo_init = Some (Inr ?s')"
    by simp
  have ok: "alloc_ok (Create 1 10 True ''a'' None) demo_init" by (simp add: demo_init_def)
  have ne: "latest ?s' \<noteq> latest demo_init" by (simp add: demo_init_def)
  from t ok st ne have
    "\<exists>L N. versions demo_init (latest demo_init) = Some L \<and> versions ?s' (latest ?s') = Some N
        \<and> vsn N = vsn L + 1 \<and> prev N = Some (latest demo_init)"
    by blast
  moreover from t have "\<exists>ch. is_chain (versions demo_init) (Some (latest demo_init)) ch \<and> distinct ch
          \<and> sorted_wrt (>) (map (vsn_of (versions demo_init)) ch)"
    by auto
  moreover have "latest ?s' = 1" by simp
  ultimately show ?thesis using demo_init_reachable ok st by blast
qed

end
